theory Spec2Isabelle
  imports Complex_Main "HOL-Library.Sublist"
begin

section \<open>Robot model (2R planar arm)\<close>

text \<open>
  The simulator computes with IEEE doubles. The embedding uses exact real arithmetic:
  every JavaScript number is a \<^typ>\<open>real\<close>, so rounding, signed zeros, infinities and
  NaN are outside the model. Where the source would produce NaN or throw, the model
  returns an error value instead.
\<close>

definition deg2rad :: "real \<Rightarrow> real" where
  "deg2rad d = (d * pi) / 180"

definition rad2deg :: "real \<Rightarrow> real" where
  "rad2deg r = (r * 180) / pi"

definition clamp :: "real \<Rightarrow> real \<Rightarrow> real \<Rightarrow> real" where
  "clamp x a b = max a (min b x)"

text \<open>The constant object \<open>model\<close> of the source, one definition per field.\<close>

definition L1 :: real where "L1 = 160"
definition L2 :: real where "L2 = 120"
definition q1Min :: real where "q1Min = deg2rad (-170)"
definition q1Max :: real where "q1Max = deg2rad 170"
definition q2Min :: real where "q2Min = deg2rad (-170)"
definition q2Max :: real where "q2Max = deg2rad 170"
definition maxSpeed :: real where "maxSpeed = deg2rad 120"

type_synonym joints = "real \<times> real"

record fk_result =
  x1 :: real
  y1 :: real
  x2 :: real
  y2 :: real

definition fk :: "joints \<Rightarrow> fk_result" where
  "fk q = (case q of (q1, q2) \<Rightarrow>
     let x1' = L1 * cos q1;
         y1' = L1 * sin q1;
         x2' = x1' + L2 * cos (q1 + q2);
         y2' = y1' + L2 * sin (q1 + q2)
     in \<lparr> x1 = x1', y1 = y1', x2 = x2', y2 = y2' \<rparr>)"

text \<open>
  \<open>Math.atan2(y, x)\<close> over the reals: the angle in \<open>(-\<pi>, \<pi>]\<close> of the point \<open>(x, y)\<close>,
  and \<open>0\<close> at the origin.
\<close>

definition atan2 :: "real \<Rightarrow> real \<Rightarrow> real" where
  "atan2 y x =
     (if 0 < x then arctan (y / x)
      else if x < 0 then (if 0 \<le> y then arctan (y / x) + pi else arctan (y / x) - pi)
      else if 0 < y then pi / 2
      else if y < 0 then - (pi / 2)
      else 0)"

text \<open>The two loops of \<open>wrap\<close>, one recursive function each.\<close>

function wrap_sub :: "real \<Rightarrow> real" where
  "wrap_sub a = (if a > pi then wrap_sub (a - 2 * pi) else a)"
  by pat_completeness auto
termination
proof (relation "measure (\<lambda>a. nat \<lceil>(a - pi) / (2 * pi)\<rceil>)")
  show "wf (measure (\<lambda>a. nat \<lceil>(a - pi) / (2 * pi)\<rceil>))" by simp
next
  fix a :: real
  assume gt: "pi < a"
  have e: "(a - 2 * pi - pi) / (2 * pi) = (a - pi) / (2 * pi) - 1"
    by (simp add: field_simps)
  have pos: "0 < (a - pi) / (2 * pi)" using gt by simp
  then have "1 \<le> \<lceil>(a - pi) / (2 * pi)\<rceil>" by linarith
  moreover have "\<lceil>(a - 2 * pi - pi) / (2 * pi)\<rceil> = \<lceil>(a - pi) / (2 * pi)\<rceil> - 1"
    unfolding e by simp
  ultimately show "(a - 2 * pi, a) \<in> measure (\<lambda>a. nat \<lceil>(a - pi) / (2 * pi)\<rceil>)"
    by simp
qed

function wrap_add :: "real \<Rightarrow> real" where
  "wrap_add a = (if a < - pi then wrap_add (a + 2 * pi) else a)"
  by pat_completeness auto
termination
proof (relation "measure (\<lambda>a. nat \<lceil>(- pi - a) / (2 * pi)\<rceil>)")
  show "wf (measure (\<lambda>a. nat \<lceil>(- pi - a) / (2 * pi)\<rceil>))" by simp
next
  fix a :: real
  assume lt: "a < - pi"
  have e: "(- pi - (a + 2 * pi)) / (2 * pi) = (- pi - a) / (2 * pi) - 1"
    by (simp add: field_simps)
  have pos: "0 < (- pi - a) / (2 * pi)" using lt by simp
  then have "1 \<le> \<lceil>(- pi - a) / (2 * pi)\<rceil>" by linarith
  moreover have "\<lceil>(- pi - (a + 2 * pi)) / (2 * pi)\<rceil> = \<lceil>(- pi - a) / (2 * pi)\<rceil> - 1"
    unfolding e by simp
  ultimately show "(a + 2 * pi, a) \<in> measure (\<lambda>a. nat \<lceil>(- pi - a) / (2 * pi)\<rceil>)"
    by simp
qed

declare wrap_sub.simps [simp del] wrap_add.simps [simp del]

definition wrap :: "real \<Rightarrow> real" where
  "wrap a = wrap_add (wrap_sub a)"

definition withinLimits :: "joints \<Rightarrow> bool" where
  "withinLimits q \<longleftrightarrow>
     fst q \<ge> q1Min \<and> fst q \<le> q1Max \<and> snd q \<ge> q2Min \<and> snd q \<le> q2Max"

datatype branch = ElbowUp | ElbowDown

text \<open>
  The object returned by \<open>ik\<close>: \<open>{ok: true, q, alt, chosen}\<close> or \<open>{ok: false, reason}\<close>.
\<close>

datatype ik_result = IkOk joints joints branch | IkFail string

definition c2_of :: "real \<Rightarrow> real \<Rightarrow> real" where
  "c2_of x y = ((x * x + y * y) - L1 * L1 - L2 * L2) / (2 * L1 * L2)"

definition s2_pos :: "real \<Rightarrow> real \<Rightarrow> real" where
  "s2_pos x y = sqrt (max 0 (1 - c2_of x y * c2_of x y))"

text \<open>\<open>candA\<close> is the elbow-up candidate, \<open>candB\<close> the elbow-down one.\<close>

definition candA :: "real \<Rightarrow> real \<Rightarrow> joints" where
  "candA x y =
     (let q2a = atan2 (s2_pos x y) (c2_of x y);
          q1a = atan2 y x - atan2 (L2 * sin q2a) (L1 + L2 * cos q2a)
      in (wrap q1a, wrap q2a))"

definition candB :: "real \<Rightarrow> real \<Rightarrow> joints" where
  "candB x y =
     (let s2_neg = - s2_pos x y;
          q2b = atan2 s2_neg (c2_of x y);
          q1b = atan2 y x - atan2 (L2 * sin q2b) (L1 + L2 * cos q2b)
      in (wrap q1b, wrap q2b))"

definition ik :: "real \<Rightarrow> real \<Rightarrow> ik_result" where
  "ik x y =
     (let c2 = c2_of x y in
      if c2 < -1 \<or> c2 > 1 then IkFail ''unreachable''
      else
        let okA = withinLimits (candA x y);
            okB = withinLimits (candB x y)
        in if okB then IkOk (candB x y) (candA x y) ElbowDown
           else if okA then IkOk (candA x y) (candB x y) ElbowUp
           else IkFail ''joint-limits'')"

section \<open>Commands and engine state\<close>

text \<open>
  A command id is a number (the worker's \<open>nextId()\<close>, the page's \<open>nextCmdId\<close>) or the
  string built by the template literal of a \<open>LINE_TO\<close> expansion.
\<close>

datatype ident = NumId nat | StrId string

definition digit_char :: "nat \<Rightarrow> char" where
  "digit_char d = ''0123456789'' ! d"

fun string_of_nat :: "nat \<Rightarrow> string" where
  "string_of_nat n =
     (if n < 10 then [digit_char n] else string_of_nat (n div 10) @ [digit_char (n mod 10)])"

declare string_of_nat.simps [simp del]

definition show_ident :: "ident \<Rightarrow> string" where
  "show_ident i = (case i of NumId n \<Rightarrow> string_of_nat n | StrId s \<Rightarrow> s)"

text \<open>
  The field \<open>type\<close> of a command with the fields that belong to each kind; \<open>OTHER\<close> carries
  any type string the engine does not know.
\<close>

datatype cmd_type =
    HOME
  | SET_JOINTS real real
  | MOVE_TO real real
  | SLEEP real
  | LINE_TO real real real
  | OTHER string

text \<open>
  The fields \<open>qStart\<close>, \<open>qTarget\<close>, \<open>duration\<close> and \<open>ik\<close> are absent until
  \<open>startCommand\<close> writes them. The fields \<open>id\<close>, \<open>type\<close> and \<open>ik\<close> of the source are
  \<open>cmd_id\<close>, \<open>ctype\<close> and \<open>ik_sol\<close> here.
\<close>

record cmd =
  cmd_id :: ident
  ctype :: cmd_type
  fromLine :: bool
  parentId :: "ident option"
  qStart :: "joints option"
  qTarget :: "joints option"
  duration :: "real option"
  ik_sol :: "ik_result option"

text \<open>
  The result objects: \<open>{ok: true}\<close>, \<open>{ok: true, ik: cmd.ik?.chosen}\<close>,
  \<open>{ok: true, note: "expanded"}\<close> and \<open>{ok: false, error}\<close>.
\<close>

datatype result = Done | DoneIk "branch option" | Expanded | Failed string

text \<open>What the page posts to the worker.\<close>

datatype message = CmdDone ident result | SimResetDone | StopMsg

text \<open>
  The object \<open>state\<close> together with the two other globals the engine mutates: the array
  \<open>cmdQueue\<close> and the messages posted to the worker so far. The fields \<open>q\<close> and \<open>t\<close> of
  the source are \<open>st_q\<close> and \<open>st_t\<close> here.
\<close>

record state =
  st_q :: joints
  speedScale :: real
  toolPath :: "(real \<times> real) list"
  busy :: bool
  currentCmd :: "cmd option"
  st_t :: real
  cmdQueue :: "cmd list"
  posted :: "message list"

definition init_state :: state where
  "init_state =
     \<lparr> st_q = (deg2rad 0, deg2rad 0), speedScale = 0.7, toolPath = [], busy = False,
       currentCmd = None, st_t = 0, cmdQueue = [], posted = [] \<rparr>"

definition lerp :: "real \<Rightarrow> real \<Rightarrow> real \<Rightarrow> real" where
  "lerp a b u = a + (b - a) * u"

definition smoothstep :: "real \<Rightarrow> real" where
  "smoothstep u = u * u * (3 - 2 * u)"

definition computeDuration :: "state \<Rightarrow> joints \<Rightarrow> joints \<Rightarrow> real" where
  "computeDuration s qS qT =
     (let dq1 = \<bar>fst qT - fst qS\<bar>;
          dq2 = \<bar>snd qT - snd qS\<bar>;
          dq = max dq1 dq2;
          speed = maxSpeed * clamp (speedScale s) 0.05 1.0
      in max 0.08 (dq / speed))"

text \<open>
  \<open>steps | 0\<close>: the number is truncated towards zero and reduced modulo \<open>2^32\<close> into the
  signed 32-bit range.
\<close>

definition trunc :: "real \<Rightarrow> int" where
  "trunc r = (if 0 \<le> r then \<lfloor>r\<rfloor> else \<lceil>r\<rceil>)"

definition toInt32 :: "real \<Rightarrow> int" where
  "toInt32 r = (let k = trunc r mod 2 ^ 32 in if k \<ge> 2 ^ 31 then k - 2 ^ 32 else k)"

definition line_steps :: "real \<Rightarrow> int" where
  "line_steps st = max 2 (toInt32 st)"

text \<open>
  The targets of the steps of a \<open>LINE_TO\<close> are compared with the target of the command
  itself, so the arithmetic that computes them is modelled as the doubles compute it:
  every operation gives the exact result rounded to the nearest double, ties to the even
  significand. \<open>rne\<close> rounds to the nearest integer, ties to even; \<open>fl\<close> rounds a real to
  53 significant bits, or to a multiple of \<open>2 powi - 1074\<close> in the subnormal range.
  Overflow to an infinity is outside the model.
\<close>

definition rne :: "real \<Rightarrow> int" where
  "rne x =
     (let f = \<lfloor>x\<rfloor>; r = x - of_int f
      in if r < 1 / 2 then f else if 1 / 2 < r then f + 1 else if even f then f else f + 1)"

definition fl :: "real \<Rightarrow> real" where
  "fl x =
     (if x = 0 then 0
      else let e = max (\<lfloor>log 2 \<bar>x\<bar>\<rfloor> - 52) (- 1074)
           in of_int (rne (x / 2 powi e)) * 2 powi e)"

text \<open>
  The object literal enqueued for step \<open>i\<close> of a \<open>LINE_TO\<close>:
  \<open>u = i / steps\<close>, \<open>x: x0 + (cmd.x - x0)*u\<close>, \<open>y: y0 + (cmd.y - y0)*u\<close>, one
  rounding per operation.
\<close>

definition line_sub :: "cmd \<Rightarrow> real \<Rightarrow> real \<Rightarrow> real \<Rightarrow> real \<Rightarrow> int \<Rightarrow> nat \<Rightarrow> cmd" where
  "line_sub c x0 y0 x y steps i =
     (let u = fl (real i / real_of_int steps) in
      \<lparr> cmd_id = StrId (show_ident (cmd_id c) @ '':'' @ string_of_nat i),
        ctype = MOVE_TO (fl (x0 + fl (fl (x - x0) * u))) (fl (y0 + fl (fl (y - y0) * u))),
        fromLine = True, parentId = Some (cmd_id c),
        qStart = None, qTarget = None, duration = None, ik_sol = None \<rparr>)"

text \<open>The commands pushed by the loop \<open>for (let i = 1; i <= steps; i++)\<close>, in order.\<close>

definition line_subs :: "state \<Rightarrow> cmd \<Rightarrow> real \<Rightarrow> real \<Rightarrow> real \<Rightarrow> cmd list" where
  "line_subs s c x y st =
     (let ee = fk (st_q s); x0 = x2 ee; y0 = y2 ee; steps = line_steps st
      in map (line_sub c x0 y0 x y steps) [1 ..< Suc (nat steps)])"

text \<open>
  The measure of the scheduler's recursion: a queued \<open>LINE_TO\<close> counts for itself and for
  the steps it will push, every other command for one.
\<close>

definition cmd_weight :: "cmd \<Rightarrow> nat" where
  "cmd_weight c = (case ctype c of LINE_TO x y st \<Rightarrow> Suc (nat (line_steps st)) | _ \<Rightarrow> 1)"

definition queue_weight :: "cmd list \<Rightarrow> nat" where
  "queue_weight cs = sum_list (map cmd_weight cs)"

text \<open>
  \<open>tryStartNext\<close>, \<open>startCommand\<close> and \<open>finishCommand\<close> call each other. In the
  \<open>LINE_TO\<close> branch every \<open>enqueue\<close> of the loop pushes its command and calls
  \<open>tryStartNext\<close>, which returns at once because \<open>state.busy\<close> was set on entry; the
  branch therefore appends the steps to the queue (lemma \<open>line_loop_enqueue\<close> below relates
  this to \<open>enqueue\<close>).
\<close>

function tryStartNext :: "state \<Rightarrow> state"
  and startCommand :: "state \<Rightarrow> cmd \<Rightarrow> state"
  and finishCommand :: "state \<Rightarrow> cmd \<Rightarrow> result \<Rightarrow> state"
where
  "tryStartNext s =
     (if busy s then s
      else case cmdQueue s of
             [] \<Rightarrow> s
           | c # rest \<Rightarrow> startCommand (s\<lparr>cmdQueue := rest\<rparr>) c)"
| "startCommand s0 c =
     (let s = s0\<lparr>busy := True, currentCmd := Some c, st_t := 0\<rparr> in
      case ctype c of
        HOME \<Rightarrow>
          (let qS = st_q s; qT = (0, 0);
               c' = c\<lparr>qStart := Some qS, qTarget := Some qT,
                       duration := Some (computeDuration s qS qT)\<rparr>
           in s\<lparr>currentCmd := Some c'\<rparr>)
      | SET_JOINTS d0 d1 \<Rightarrow>
          (let qS = st_q s;
               qT = (clamp (deg2rad d0) q1Min q1Max, clamp (deg2rad d1) q2Min q2Max);
               c' = c\<lparr>qStart := Some qS, qTarget := Some qT,
                       duration := Some (computeDuration s qS qT)\<rparr>
           in s\<lparr>currentCmd := Some c'\<rparr>)
      | MOVE_TO x y \<Rightarrow>
          (case ik x y of
             IkFail reason \<Rightarrow> finishCommand s c (Failed reason)
           | IkOk qsol alt chosen \<Rightarrow>
               (let qS = st_q s;
                    c' = c\<lparr>qStart := Some qS, qTarget := Some qsol,
                            duration := Some (computeDuration s qS qsol),
                            ik_sol := Some (IkOk qsol alt chosen)\<rparr>
                in s\<lparr>currentCmd := Some c'\<rparr>))
      | SLEEP seconds \<Rightarrow>
          s\<lparr>currentCmd := Some (c\<lparr>duration := Some (max 0 seconds)\<rparr>)\<rparr>
      | LINE_TO x y st \<Rightarrow>
          finishCommand (s\<lparr>cmdQueue := cmdQueue s @ line_subs s c x y st\<rparr>) c Expanded
      | OTHER ty \<Rightarrow> finishCommand s c (Failed ''unknown-cmd''))"
| "finishCommand s c r =
     tryStartNext (s\<lparr>busy := False, currentCmd := None,
                     posted := posted s @ [CmdDone (cmd_id c) r]\<rparr>)"
  by pat_completeness auto
termination
proof -
  have ones: "sum_list (map (\<lambda>i. Suc 0) ns) = length ns" for ns :: "nat list"
    by (induction ns) simp_all
  have one: "cmd_weight (line_sub c x0 y0 x y k i) = 1" for c x0 y0 x y k i
    by (simp add: cmd_weight_def line_sub_def Let_def)
  have subs: "queue_weight (line_subs s c x y st) = nat (line_steps st)" for s c x y st
    by (simp add: queue_weight_def line_subs_def Let_def comp_def one ones
        del: upt_Suc)
  show ?thesis
    by (relation "measure (\<lambda>a. case a of
          Inl s \<Rightarrow> 3 * queue_weight (cmdQueue s) + 2
        | Inr (Inl (s, c)) \<Rightarrow> 3 * (queue_weight (cmdQueue s) + cmd_weight c) + 1
        | Inr (Inr (s, c, r)) \<Rightarrow> 3 * queue_weight (cmdQueue s) + 3)")
      (auto simp: cmd_weight_def queue_weight_def subs [unfolded queue_weight_def])
qed

declare tryStartNext.simps [simp del] startCommand.simps [simp del]
  finishCommand.simps [simp del]

definition enqueue :: "cmd \<Rightarrow> state \<Rightarrow> state" where
  "enqueue c s = tryStartNext (s\<lparr>cmdQueue := cmdQueue s @ [c]\<rparr>)"

text \<open>
  What \<open>update\<close> cannot compute over the reals: reading \<open>cmd.qStart[0]\<close> of a command
  without \<open>qStart\<close> throws a \<open>TypeError\<close>, and a missing or zero duration with zero
  elapsed time makes the progress \<open>NaN\<close>.
\<close>

datatype js_error = TypeError | NotANumber

text \<open>
  \<open>clamp(state.t / cmd.duration, 0, 1)\<close>. Dividing by zero gives an infinity that the
  clamp brings back to \<open>1\<close> or \<open>0\<close>, except for \<open>0 / 0\<close>.
\<close>

definition progress :: "real \<Rightarrow> real option \<Rightarrow> real option" where
  "progress elapsed dur =
     (case dur of
        None \<Rightarrow> None
      | Some d \<Rightarrow>
          if d \<noteq> 0 then Some (clamp (elapsed / d) 0 1)
          else if 0 < elapsed then Some 1
          else if elapsed < 0 then Some 0
          else None)"

definition ik_chosen :: "cmd \<Rightarrow> branch option" where
  "ik_chosen c = (case ik_sol c of Some (IkOk qsol alt chosen) \<Rightarrow> Some chosen | _ \<Rightarrow> None)"

text \<open>The branch of \<open>update\<close> for \<open>HOME\<close>, \<open>SET_JOINTS\<close> and \<open>MOVE_TO\<close>.\<close>

definition update_motion :: "state \<Rightarrow> cmd \<Rightarrow> js_error + state" where
  "update_motion s c =
     (case qStart c of
        None \<Rightarrow> Inl TypeError
      | Some qS \<Rightarrow>
     (case qTarget c of
        None \<Rightarrow> Inl TypeError
      | Some qT \<Rightarrow>
     (case progress (st_t s) (duration c) of
        None \<Rightarrow> Inl NotANumber
      | Some u \<Rightarrow>
          let sm = smoothstep u;
              s1 = s\<lparr>st_q := (lerp (fst qS) (fst qT) sm, lerp (snd qS) (snd qT) sm)\<rparr>;
              ee = fk (st_q s1);
              s2 = s1\<lparr>toolPath := toolPath s1 @ [(x2 ee, y2 ee)]\<rparr>
          in if u \<ge> 1 then Inr (finishCommand s2 c (DoneIk (ik_chosen c))) else Inr s2)))"

definition update :: "real \<Rightarrow> state \<Rightarrow> js_error + state" where
  "update dt s0 =
     (if busy s0 then
        (case currentCmd s0 of
           None \<Rightarrow> Inr s0
         | Some c \<Rightarrow>
             let s = s0\<lparr>st_t := st_t s0 + dt\<rparr> in
             (case ctype c of
                SLEEP seconds \<Rightarrow>
                  (case duration c of
                     None \<Rightarrow> Inr s
                   | Some d \<Rightarrow> if st_t s \<ge> d then Inr (finishCommand s c Done) else Inr s)
              | HOME \<Rightarrow> update_motion s c
              | SET_JOINTS d0 d1 \<Rightarrow> update_motion s c
              | MOVE_TO x y \<Rightarrow> update_motion s c
              | _ \<Rightarrow> Inr s))
      else Inr s0)"

text \<open>The message handlers of the page and its buttons.\<close>

definition set_speed :: "real \<Rightarrow> state \<Rightarrow> state" where
  "set_speed v s = s\<lparr>speedScale := clamp v 0 1\<rparr>"

definition reset_path :: "state \<Rightarrow> state" where
  "reset_path s = s\<lparr>toolPath := []\<rparr>"

definition hardResetSim :: "state \<Rightarrow> state" where
  "hardResetSim s =
     s\<lparr>cmdQueue := [], busy := False, currentCmd := None, st_q := (0, 0),
       speedScale := 0.7, toolPath := [], posted := posted s @ [SimResetDone]\<rparr>"

definition stop :: "state \<Rightarrow> state" where
  "stop s =
     s\<lparr>cmdQueue := [], busy := False, currentCmd := None,
       posted := posted s @ [StopMsg]\<rparr>"

text \<open>A command as the worker or the page creates it: id and type only.\<close>

definition new_cmd :: "ident \<Rightarrow> cmd_type \<Rightarrow> cmd" where
  "new_cmd i ty =
     \<lparr> cmd_id = i, ctype = ty, fromLine = False, parentId = None,
       qStart = None, qTarget = None, duration = None, ik_sol = None \<rparr>"

text \<open>
  The animation loop calls \<open>update\<close> once per frame; \<open>ticks\<close> runs it for the given
  sequence of frame times. A frame in which \<open>update\<close> throws ends the loop, since the next
  frame is requested only at the end of \<open>tick\<close>.
\<close>

fun ticks :: "real list \<Rightarrow> state \<Rightarrow> js_error + state" where
  "ticks [] s = Inr s"
| "ticks (dt # dts) s = (case update dt s of Inl e \<Rightarrow> Inl e | Inr s' \<Rightarrow> ticks dts s')"

section \<open>Predicates and views used by the properties\<close>

text \<open>The invariant of the data model: \<open>busy == true\<close> iff \<open>currentCmd != null\<close>.\<close>

definition busy_iff_current :: "state \<Rightarrow> bool" where
  "busy_iff_current s \<longleftrightarrow> (busy s \<longleftrightarrow> currentCmd s \<noteq> None)"

text \<open>
  What \<open>startCommand\<close> leaves in \<open>currentCmd\<close>: a motion command with its plan and a
  duration of at least the floor, or a \<open>SLEEP\<close> with its duration; never a \<open>LINE_TO\<close> or a
  command of unknown type.
\<close>

definition motion_ready :: "cmd \<Rightarrow> bool" where
  "motion_ready c \<longleftrightarrow>
     qStart c \<noteq> None \<and> qTarget c \<noteq> None
     \<and> (case duration c of None \<Rightarrow> False | Some d \<Rightarrow> 0.08 \<le> d)"

definition runnable :: "cmd \<Rightarrow> bool" where
  "runnable c =
     (case ctype c of
        HOME \<Rightarrow> motion_ready c
      | SET_JOINTS d0 d1 \<Rightarrow> motion_ready c
      | MOVE_TO x y \<Rightarrow> motion_ready c
      | SLEEP seconds \<Rightarrow> duration c \<noteq> None
      | LINE_TO x y st \<Rightarrow> False
      | OTHER ty \<Rightarrow> False)"

definition current_runnable :: "state \<Rightarrow> bool" where
  "current_runnable s = (case currentCmd s of None \<Rightarrow> True | Some c \<Rightarrow> runnable c)"

definition is_motion :: "cmd \<Rightarrow> bool" where
  "is_motion c =
     (case ctype c of HOME \<Rightarrow> True | SET_JOINTS d0 d1 \<Rightarrow> True | MOVE_TO x y \<Rightarrow> True
      | _ \<Rightarrow> False)"

text \<open>
  The ids of the commands in the order the engine serves them: those whose \<open>cmd_done\<close> was
  posted, then the one executing, then the queue from head to tail.
\<close>

fun done_id :: "message \<Rightarrow> ident list" where
  "done_id (CmdDone i r) = [i]"
| "done_id SimResetDone = []"
| "done_id StopMsg = []"

definition completed :: "state \<Rightarrow> ident list" where
  "completed s = concat (map done_id (posted s))"

definition pending :: "state \<Rightarrow> ident list" where
  "pending s =
     (case currentCmd s of None \<Rightarrow> [] | Some c \<Rightarrow> [cmd_id c]) @ map cmd_id (cmdQueue s)"

definition service_order :: "state \<Rightarrow> ident list" where
  "service_order s = completed s @ pending s"

text \<open>What an observer of the arm sees: pose, toolpath and the posted messages.\<close>

definition motion_view :: "state \<Rightarrow> joints \<times> (real \<times> real) list \<times> message list" where
  "motion_view s = (st_q s, toolPath s, posted s)"

text \<open>The ids completed, executing and queued.\<close>

definition queue_view :: "state \<Rightarrow> ident list \<times> ident option \<times> ident list" where
  "queue_view s = (completed s, map_option cmd_id (currentCmd s), map cmd_id (cmdQueue s))"

text \<open>
  A state without the data that depends on the speed scale: the scale itself and the
  duration stored in the executing command.
\<close>

definition forget_speed :: "state \<Rightarrow> state" where
  "forget_speed s =
     s\<lparr>speedScale := 0, currentCmd := map_option (\<lambda>c. c\<lparr>duration := None\<rparr>) (currentCmd s)\<rparr>"

text \<open>
  The executing command, when it is a motion command, carries the duration that
  \<open>computeDuration\<close> gives for its plan under the speed scale of the state.
\<close>

definition current_timed :: "state \<Rightarrow> bool" where
  "current_timed s =
     (case currentCmd s of
        None \<Rightarrow> True
      | Some k \<Rightarrow>
          if is_motion k then
            (case qStart k of
               None \<Rightarrow> False
             | Some qS \<Rightarrow>
                 (case qTarget k of
                    None \<Rightarrow> False
                  | Some qT \<Rightarrow> duration k = Some (computeDuration s qS qT)))
          else True)"

section \<open>Scenarios\<close>

text \<open>
  The engine right after \<open>SET_JOINTS([90, 0])\<close> was enqueued on the initial state: a
  quarter turn of joint 1 is under way.
\<close>

definition turning :: state where
  "turning = enqueue (new_cmd (NumId 1) (SET_JOINTS 90 0)) init_state"

text \<open>The same engine two frames of 0.05 seconds later.\<close>

definition turning_on :: state where
  "turning_on =
     \<lparr> st_q = (pi * 10339 / 843750, 0), speedScale = 0.7,
       toolPath = [(280 * cos (pi * 5341 / 1687500), 280 * sin (pi * 5341 / 1687500)),
                   (280 * cos (pi * 10339 / 843750), 280 * sin (pi * 10339 / 843750))],
       busy = True,
       currentCmd = Some \<lparr> cmd_id = NumId 1, ctype = SET_JOINTS 90 0, fromLine = False,
         parentId = None, qStart = Some (0, 0), qTarget = Some (pi / 2, 0),
         duration = Some (15 / 14), ik_sol = None \<rparr>,
       st_t = 0.1, cmdQueue = [], posted = [] \<rparr>"

text \<open>
  \<open>SLEEP(0.05)\<close>, \<open>LINE_TO(100, 100, steps = 2)\<close> and \<open>HOME\<close> enqueued in this order on
  the initial state: the sleep is executing, the other two wait.
\<close>

definition fifo_scene :: state where
  "fifo_scene =
     enqueue (new_cmd (NumId 3) HOME)
       (enqueue (new_cmd (NumId 2) (LINE_TO 100 100 2))
          (enqueue (new_cmd (NumId 1) (SLEEP 0.05)) init_state))"

section \<open>Inverse kinematics\<close>

lemma wrap_zero: "wrap 0 = 0"
  by (simp add: wrap_def wrap_sub.simps [of 0] wrap_add.simps [of 0])




text \<open>
  Claim C6. \<open>ik\<close> answers \<open>{ok: false, reason: "unreachable"}\<close> exactly when
  \<open>c2 = (x\<^sup>2 + y\<^sup>2 - L1\<^sup>2 - L2\<^sup>2) / (2 L1 L2)\<close> is below \<open>-1\<close> or above \<open>1\<close>, and it
  does so for the target \<open>(L1 + L2 + 1, 0)\<close>.
\<close>

theorem ik_unreachable_iff:
  "(ik x y = IkFail ''unreachable'') = (c2_of x y < -1 \<or> c2_of x y > 1)
   \<and> ik (L1 + L2 + 1) 0 = IkFail ''unreachable''"
  by (auto simp: ik_def Let_def c2_of_def L1_def L2_def)



lemma sqrt_one_plus_ratio:
  fixes x y :: real
  assumes "x \<noteq> 0"
  shows "sqrt (1 + (y / x)\<^sup>2) = sqrt (x\<^sup>2 + y\<^sup>2) / \<bar>x\<bar>"
proof -
  have "1 + (y / x)\<^sup>2 = (x\<^sup>2 + y\<^sup>2) / x\<^sup>2"
    using assms by (simp add: field_simps power2_eq_square)
  then have "sqrt (1 + (y / x)\<^sup>2) = sqrt ((x\<^sup>2 + y\<^sup>2) / x\<^sup>2)" by simp
  also have "\<dots> = sqrt (x\<^sup>2 + y\<^sup>2) / sqrt (x\<^sup>2)" by (rule real_sqrt_divide)
  finally show ?thesis by simp
qed

lemma hyp_pos:
  fixes x y :: real
  assumes "x \<noteq> 0 \<or> y \<noteq> 0"
  shows "0 < sqrt (x\<^sup>2 + y\<^sup>2)"
  using assms by (auto simp: sum_power2_gt_zero_iff)

lemma cos_atan2:
  assumes "x \<noteq> 0 \<or> y \<noteq> 0"
  shows "cos (atan2 y x) = x / sqrt (x\<^sup>2 + y\<^sup>2)"
proof -
  have r: "0 < sqrt (x\<^sup>2 + y\<^sup>2)" using assms by (rule hyp_pos)
  consider "0 < x" | "x < 0" | "x = 0" "0 < y" | "x = 0" "y < 0"
    using assms by linarith
  then show ?thesis
  proof cases
    case 1
    then show ?thesis
      by (simp add: atan2_def cos_arctan sqrt_one_plus_ratio)
  next
    case 2
    then show ?thesis
      by (simp add: atan2_def cos_arctan sqrt_one_plus_ratio)
  next
    case 3
    then show ?thesis by (simp add: atan2_def)
  next
    case 4
    then show ?thesis by (simp add: atan2_def)
  qed
qed

lemma sin_atan2:
  assumes "x \<noteq> 0 \<or> y \<noteq> 0"
  shows "sin (atan2 y x) = y / sqrt (x\<^sup>2 + y\<^sup>2)"
proof -
  have r: "0 < sqrt (x\<^sup>2 + y\<^sup>2)" using assms by (rule hyp_pos)
  consider "0 < x" | "x < 0" | "x = 0" "0 < y" | "x = 0" "y < 0"
    using assms by linarith
  then show ?thesis
  proof cases
    case 1
    then show ?thesis
      by (simp add: atan2_def sin_arctan sqrt_one_plus_ratio)
  next
    case 2
    then show ?thesis
      by (simp add: atan2_def sin_arctan sqrt_one_plus_ratio)
  next
    case 3
    then show ?thesis by (simp add: atan2_def)
  next
    case 4
    then show ?thesis by (simp add: atan2_def)
  qed
qed

lemma wrap_sub_cos_sin: "cos (wrap_sub a) = cos a \<and> sin (wrap_sub a) = sin a"
proof (induction a rule: wrap_sub.induct)
  case (1 a)
  show ?case
  proof (cases "a > pi")
    case True
    then have "wrap_sub a = wrap_sub (a - 2 * pi)" by (subst wrap_sub.simps) simp
    with 1 True show ?thesis by (simp add: cos_diff sin_diff)
  next
    case False
    then show ?thesis by (subst (1 2) wrap_sub.simps) simp
  qed
qed

lemma wrap_add_cos_sin: "cos (wrap_add a) = cos a \<and> sin (wrap_add a) = sin a"
proof (induction a rule: wrap_add.induct)
  case (1 a)
  show ?case
  proof (cases "a < - pi")
    case True
    then have "wrap_add a = wrap_add (a + 2 * pi)" by (subst wrap_add.simps) simp
    with 1 True show ?thesis by (simp add: cos_diff sin_diff)
  next
    case False
    then show ?thesis by (subst (1 2) wrap_add.simps) simp
  qed
qed

lemma cos_wrap [simp]: "cos (wrap a) = cos a"
  and sin_wrap [simp]: "sin (wrap a) = sin a"
  by (simp_all add: wrap_def wrap_add_cos_sin wrap_sub_cos_sin)

lemma fk_of_solution:
  fixes x y c s :: real
  assumes unit: "c\<^sup>2 + s\<^sup>2 = 1"
    and c: "c = c2_of x y"
    and pos: "0 < x\<^sup>2 + y\<^sup>2"
  defines "q2 \<equiv> atan2 s c"
  defines "q1 \<equiv> atan2 y x - atan2 (L2 * sin q2) (L1 + L2 * cos q2)"
  shows "x2 (fk (wrap q1, wrap q2)) = x \<and> y2 (fk (wrap q1, wrap q2)) = y"
proof -
  define r where "r = sqrt (x\<^sup>2 + y\<^sup>2)"
  define k1 where "k1 = L1 + L2 * c"
  define k2 where "k2 = L2 * s"
  have r_pos: "0 < r" using pos by (simp add: r_def)
  have r_sq: "r * r = x\<^sup>2 + y\<^sup>2" using pos by (simp add: r_def)
  have cs_nz: "c \<noteq> 0 \<or> s \<noteq> 0" using unit by auto
  have cq2: "cos q2 = c" and sq2: "sin q2 = s"
    using cos_atan2 [OF cs_nz] sin_atan2 [OF cs_nz] unit by (simp_all add: q2_def)
  have "2 * L1 * L2 * c = x\<^sup>2 + y\<^sup>2 - L1 * L1 - L2 * L2"
    unfolding c c2_of_def by (simp add: L1_def L2_def power2_eq_square)
  then have "k1\<^sup>2 + k2\<^sup>2 = x\<^sup>2 + y\<^sup>2 + L2 * L2 * (c\<^sup>2 + s\<^sup>2 - 1)"
    unfolding k1_def k2_def by (simp add: power2_eq_square algebra_simps)
  then have k_sq: "k1\<^sup>2 + k2\<^sup>2 = x\<^sup>2 + y\<^sup>2" using unit by simp
  have xy_nz: "x \<noteq> 0 \<or> y \<noteq> 0" using pos by auto
  have k_nz: "k1 \<noteq> 0 \<or> k2 \<noteq> 0" using pos k_sq by auto
  have cphi: "cos (atan2 y x) = x / r" and sphi: "sin (atan2 y x) = y / r"
    using cos_atan2 [OF xy_nz] sin_atan2 [OF xy_nz] by (simp_all add: r_def)
  have cpsi: "cos (atan2 k2 k1) = k1 / r" and spsi: "sin (atan2 k2 k1) = k2 / r"
    using cos_atan2 [OF k_nz] sin_atan2 [OF k_nz] by (simp_all add: r_def k_sq)
  have q1: "q1 = atan2 y x - atan2 k2 k1"
    by (simp add: q1_def cq2 sq2 k1_def k2_def)
  have cq1: "cos q1 = (x * k1 + y * k2) / (r * r)"
    unfolding q1 cos_diff cphi sphi cpsi spsi by (simp add: add_divide_distrib)
  have sq1: "sin q1 = (y * k1 - x * k2) / (r * r)"
    unfolding q1 sin_diff cphi sphi cpsi spsi by (simp add: diff_divide_distrib)
  have rr: "r * r = k1 * k1 + k2 * k2" using r_sq k_sq by (simp add: power2_eq_square)
  have rr_nz: "k1 * k1 + k2 * k2 \<noteq> 0" using rr r_pos by auto
  have X: "cos q1 * k1 - sin q1 * k2 = x"
  proof -
    have "cos q1 * k1 - sin q1 * k2 =
          ((x * k1 + y * k2) * k1 - (y * k1 - x * k2) * k2) / (k1 * k1 + k2 * k2)"
      unfolding cq1 sq1 rr
      by (simp only: times_divide_eq_left diff_divide_distrib [symmetric])
    also have "(x * k1 + y * k2) * k1 - (y * k1 - x * k2) * k2 = x * (k1 * k1 + k2 * k2)"
      by (simp add: algebra_simps)
    finally show ?thesis using k_nz by auto
  qed
  have Y: "sin q1 * k1 + cos q1 * k2 = y"
  proof -
    have "sin q1 * k1 + cos q1 * k2 =
          ((y * k1 - x * k2) * k1 + (x * k1 + y * k2) * k2) / (k1 * k1 + k2 * k2)"
      unfolding cq1 sq1 rr
      by (simp only: times_divide_eq_left add_divide_distrib [symmetric])
    also have "(y * k1 - x * k2) * k1 + (x * k1 + y * k2) * k2 = y * (k1 * k1 + k2 * k2)"
      by (simp add: algebra_simps)
    finally show ?thesis using k_nz by auto
  qed
  have "x2 (fk (wrap q1, wrap q2)) = cos q1 * k1 - sin q1 * k2"
    by (simp add: fk_def Let_def cos_add cq2 sq2 k1_def k2_def algebra_simps)
  moreover have "y2 (fk (wrap q1, wrap q2)) = sin q1 * k1 + cos q1 * k2"
    by (simp add: fk_def Let_def sin_add cq2 sq2 k1_def k2_def algebra_simps)
  ultimately show ?thesis using X Y by simp
qed

lemma c2_range_iff:
  "(- 1 \<le> c2_of x y \<and> c2_of x y \<le> 1) \<longleftrightarrow>
   (\<bar>L1 - L2\<bar> \<le> sqrt (x\<^sup>2 + y\<^sup>2) \<and> sqrt (x\<^sup>2 + y\<^sup>2) \<le> L1 + L2)"
proof -
  have a: "(- 1 \<le> c2_of x y) \<longleftrightarrow> 40\<^sup>2 \<le> x\<^sup>2 + y\<^sup>2"
    by (simp add: c2_of_def L1_def L2_def power2_eq_square field_simps)
  have b: "(c2_of x y \<le> 1) \<longleftrightarrow> x\<^sup>2 + y\<^sup>2 \<le> 280\<^sup>2"
    by (simp add: c2_of_def L1_def L2_def power2_eq_square field_simps)
  have c: "40\<^sup>2 \<le> x\<^sup>2 + y\<^sup>2 \<longleftrightarrow> 40 \<le> sqrt (x\<^sup>2 + y\<^sup>2)"
    by (metis abs_numeral real_sqrt_abs real_sqrt_le_iff)
  have d: "x\<^sup>2 + y\<^sup>2 \<le> 280\<^sup>2 \<longleftrightarrow> sqrt (x\<^sup>2 + y\<^sup>2) \<le> 280"
    by (metis abs_numeral real_sqrt_abs real_sqrt_le_iff)
  show ?thesis unfolding a b c d by (simp add: L1_def L2_def)
qed

lemma cand_round_trip:
  assumes "- 1 \<le> c2_of x y" and "c2_of x y \<le> 1"
  shows "x2 (fk (candA x y)) = x \<and> y2 (fk (candA x y)) = y"
    and "x2 (fk (candB x y)) = x \<and> y2 (fk (candB x y)) = y"
proof -
  let ?c = "c2_of x y"
  have cc: "?c * ?c \<le> 1" using assms
    by (metis abs_le_iff abs_mult_self_eq minus_le_iff mult_le_one abs_ge_zero abs_mult)
  then have s2: "(s2_pos x y)\<^sup>2 = 1 - ?c * ?c"
    by (simp add: s2_pos_def max_def)
  have unitA: "?c\<^sup>2 + (s2_pos x y)\<^sup>2 = 1" using s2 by (simp add: power2_eq_square)
  have unitB: "?c\<^sup>2 + (- s2_pos x y)\<^sup>2 = 1" using s2 by (simp add: power2_eq_square)
  have "40\<^sup>2 \<le> x\<^sup>2 + y\<^sup>2" using assms(1)
    by (simp add: c2_of_def L1_def L2_def power2_eq_square field_simps)
  then have pos: "0 < x\<^sup>2 + y\<^sup>2" by simp
  show "x2 (fk (candA x y)) = x \<and> y2 (fk (candA x y)) = y"
    using fk_of_solution [OF unitA refl pos] by (simp add: candA_def Let_def)
  show "x2 (fk (candB x y)) = x \<and> y2 (fk (candB x y)) = y"
    using fk_of_solution [OF unitB refl pos] by (simp add: candB_def Let_def)
qed


lemma wrap_pi: "wrap pi = pi"
  by (simp add: wrap_def wrap_sub.simps [of pi] wrap_add.simps [of pi])

text \<open>
  Claim C5, as stated, fails: the target \<open>(-280, 0)\<close> lies at distance \<open>L1 + L2\<close>, but both
  candidates need \<open>q1 = \<pi>\<close>, beyond the limit of 170 degrees, and \<open>ik\<close> does not succeed.
\<close>

theorem ik_round_trip_counterexample:
  "\<bar>L1 - L2\<bar> \<le> sqrt ((-280)\<^sup>2 + 0\<^sup>2) \<and> sqrt ((-280)\<^sup>2 + 0\<^sup>2) \<le> L1 + L2
   \<and> ik (-280) 0 = IkFail ''joint-limits''"
proof -
  have c: "c2_of (-280) 0 = 1" by (simp add: c2_of_def L1_def L2_def)
  have A: "candA (-280) 0 = (pi, 0)"
    by (simp add: candA_def s2_pos_def c atan2_def L1_def L2_def Let_def wrap_zero wrap_pi)
  have B: "candB (-280) 0 = (pi, 0)"
    by (simp add: candB_def s2_pos_def c atan2_def L1_def L2_def Let_def wrap_zero wrap_pi)
  have nl: "\<not> withinLimits (pi, 0)"
    using pi_gt_zero by (simp add: withinLimits_def q1Max_def deg2rad_def)
  show ?thesis
    by (simp add: ik_def Let_def c A B nl L1_def L2_def)
qed

text \<open>
  Claim C5, amended. For a target whose distance from the origin lies in
  \<open>[|L1 - L2|, L1 + L2]\<close>, \<open>ik\<close> never answers \<open>unreachable\<close>: it fails with reason
  \<open>joint-limits\<close>, exactly when both candidates violate the limits, or it succeeds, and then
  \<open>fk\<close> maps the returned joint angles (and the alternative) exactly to \<open>(x, y)\<close>.
\<close>

theorem ik_fk_round_trip:
  assumes "\<bar>L1 - L2\<bar> \<le> sqrt (x\<^sup>2 + y\<^sup>2)" and "sqrt (x\<^sup>2 + y\<^sup>2) \<le> L1 + L2"
  shows "(case ik x y of
            IkOk qsol alt chosen \<Rightarrow>
              x2 (fk qsol) = x \<and> y2 (fk qsol) = y \<and> x2 (fk alt) = x \<and> y2 (fk alt) = y
          | IkFail reason \<Rightarrow> reason = ''joint-limits'')
         \<and> ((ik x y = IkFail ''joint-limits'') =
              (\<not> withinLimits (candA x y) \<and> \<not> withinLimits (candB x y)))"
proof -
  have c: "- 1 \<le> c2_of x y" "c2_of x y \<le> 1"
    using assms c2_range_iff [of x y] by simp_all
  show ?thesis
    using c cand_round_trip [OF c] by (simp add: ik_def Let_def)
qed

theorem ik_fk_round_trip_witness:
  "\<bar>L1 - L2\<bar> \<le> sqrt (0\<^sup>2 + 280\<^sup>2) \<and> sqrt (0\<^sup>2 + 280\<^sup>2) \<le> L1 + L2
   \<and> ik 0 280 = IkOk (pi / 2, 0) (pi / 2, 0) ElbowDown
   \<and> x2 (fk (pi / 2, 0)) = 0 \<and> y2 (fk (pi / 2, 0)) = 280"
proof -
  have r: "\<bar>L1 - L2\<bar> \<le> sqrt (0\<^sup>2 + 280\<^sup>2)" "sqrt (0\<^sup>2 + 280\<^sup>2) \<le> L1 + L2"
    by (simp_all add: L1_def L2_def)
  have c: "c2_of 0 280 = 1" by (simp add: c2_of_def L1_def L2_def)
  have w: "wrap (pi / 2) = pi / 2"
    using pi_gt_zero
    by (simp add: wrap_def wrap_sub.simps [of "pi / 2"] wrap_add.simps [of "pi / 2"])
  have A: "candA 0 280 = (pi / 2, 0)"
    by (simp add: candA_def s2_pos_def c atan2_def L1_def L2_def Let_def wrap_zero w)
  have B: "candB 0 280 = (pi / 2, 0)"
    by (simp add: candB_def s2_pos_def c atan2_def L1_def L2_def Let_def wrap_zero w)
  have l: "withinLimits (pi / 2, 0)"
  proof -
    have "- (17 * pi / 9) \<le> 0" by simp
    also have "0 \<le> pi" by simp
    finally show ?thesis
      by (simp add: withinLimits_def q1Min_def q1Max_def q2Min_def q2Max_def deg2rad_def)
  qed
  have i: "ik 0 280 = IkOk (pi / 2, 0) (pi / 2, 0) ElbowDown"
    by (simp add: ik_def Let_def c A B l)
  show ?thesis
    using r i ik_fk_round_trip [OF r] by simp
qed

section \<open>Durations\<close>

text \<open>
  Claim C3, as stated, fails: \<open>computeDuration\<close> clamps the speed scale to \<open>[0.05, 1]\<close>, so
  halving a scale of \<open>0.05\<close> changes nothing, although the duration (\<open>30 / \<pi>\<close> seconds for a
  one-radian move) is far above the floor.
\<close>

theorem computeDuration_halving_counterexample:
  "\<not> (computeDuration (init_state\<lparr>speedScale := 0.05 / 2\<rparr>) (0, 0) (1, 0)
        \<ge> 2 * computeDuration (init_state\<lparr>speedScale := 0.05\<rparr>) (0, 0) (1, 0))
   \<and> computeDuration (init_state\<lparr>speedScale := 0.05\<rparr>) (0, 0) (1, 0) > 0.08"
  using pi_gt_zero pi_less_4
  by (simp add: computeDuration_def Let_def clamp_def maxSpeed_def deg2rad_def
      init_state_def field_simps)

lemma computeDuration_in_range:
  assumes "0.05 \<le> v" and "v \<le> 1"
  shows "computeDuration (s\<lparr>speedScale := v\<rparr>) qS qT =
         max 0.08 (max \<bar>fst qT - fst qS\<bar> \<bar>snd qT - snd qS\<bar> / (maxSpeed * v))"
  using assms by (simp add: computeDuration_def Let_def clamp_def min_def max_def)

text \<open>
  Claim C3, amended. For a speed scale \<open>v\<close> in \<open>[0.1, 1]\<close>, where the clamp changes neither
  \<open>v\<close> nor \<open>v / 2\<close>: the duration at \<open>v / 2\<close> is the floor or twice the unfloored duration
  at \<open>v\<close>, whichever is larger; it is exactly twice the duration at \<open>v\<close> when that one is
  above the floor, and never below the duration at \<open>v\<close>.
\<close>

theorem computeDuration_halving:
  assumes "0.1 \<le> v" and "v \<le> 1"
  shows "computeDuration (s\<lparr>speedScale := v / 2\<rparr>) qS qT =
           max 0.08 (2 * (max \<bar>fst qT - fst qS\<bar> \<bar>snd qT - snd qS\<bar> / (maxSpeed * v)))
         \<and> (computeDuration (s\<lparr>speedScale := v\<rparr>) qS qT > 0.08 \<longrightarrow>
              computeDuration (s\<lparr>speedScale := v / 2\<rparr>) qS qT =
                2 * computeDuration (s\<lparr>speedScale := v\<rparr>) qS qT)
         \<and> computeDuration (s\<lparr>speedScale := v\<rparr>) qS qT
             \<le> computeDuration (s\<lparr>speedScale := v / 2\<rparr>) qS qT"
proof -
  let ?r = "max \<bar>fst qT - fst qS\<bar> \<bar>snd qT - snd qS\<bar> / (maxSpeed * v)"
  have ms: "0 < maxSpeed" by (simp add: maxSpeed_def deg2rad_def)
  have r0: "0 \<le> ?r" using ms assms by simp
  have a: "computeDuration (s\<lparr>speedScale := v\<rparr>) qS qT = max 0.08 ?r"
    using assms by (intro computeDuration_in_range) simp_all
  have h: "d / (maxSpeed * (v / 2)) = 2 * (d / (maxSpeed * v))" for d
    by simp
  have "computeDuration (s\<lparr>speedScale := v / 2\<rparr>) qS qT =
        max 0.08 (max \<bar>fst qT - fst qS\<bar> \<bar>snd qT - snd qS\<bar> / (maxSpeed * (v / 2)))"
    using assms by (intro computeDuration_in_range) simp_all
  then have b: "computeDuration (s\<lparr>speedScale := v / 2\<rparr>) qS qT = max 0.08 (2 * ?r)"
    by (simp only: h)
  show ?thesis unfolding a b using r0 by (auto simp: max_def)
qed

theorem computeDuration_halving_witness:
  "(0.1::real) \<le> 1 \<and> (1::real) \<le> 1
   \<and> computeDuration (init_state\<lparr>speedScale := 1\<rparr>) (0, 0) (1, 0) > 0.08
   \<and> computeDuration (init_state\<lparr>speedScale := 1 / 2\<rparr>) (0, 0) (1, 0) =
       2 * computeDuration (init_state\<lparr>speedScale := 1\<rparr>) (0, 0) (1, 0)"
proof -
  have gt: "computeDuration (init_state\<lparr>speedScale := 1\<rparr>) (0, 0) (1, 0) > 0.08"
    using pi_gt_zero pi_less_4
    by (simp add: computeDuration_def Let_def clamp_def maxSpeed_def deg2rad_def
        init_state_def field_simps)
  show ?thesis
    using gt computeDuration_halving [of 1 init_state "(0, 0)" "(1, 0)"] by simp
qed

section \<open>The scheduler\<close>

lemma sched_busy_iff_current:
  "busy_iff_current s \<Longrightarrow> busy_iff_current (tryStartNext s)"
  "busy_iff_current (startCommand s0 c)"
  "busy_iff_current (finishCommand s c r)"
proof (induction s and s0 c and s c r rule: tryStartNext_startCommand_finishCommand.induct)
  case (1 s)
  then show ?case
    by (subst tryStartNext.simps) (simp split: list.split)
next
  case (2 s0 c)
  then show ?case
    by (subst startCommand.simps)
      (simp add: Let_def busy_iff_current_def split: cmd_type.split ik_result.split)
next
  case (3 s c r)
  then show ?case
    by (subst finishCommand.simps) (simp add: busy_iff_current_def)
qed

lemma sched_pose:
  "st_q (tryStartNext s) = st_q s \<and> toolPath (tryStartNext s) = toolPath s
     \<and> speedScale (tryStartNext s) = speedScale s"
  "st_q (startCommand s0 c) = st_q s0 \<and> toolPath (startCommand s0 c) = toolPath s0
     \<and> speedScale (startCommand s0 c) = speedScale s0"
  "st_q (finishCommand s c r) = st_q s \<and> toolPath (finishCommand s c r) = toolPath s
     \<and> speedScale (finishCommand s c r) = speedScale s"
proof (induction s and s0 c and s c r rule: tryStartNext_startCommand_finishCommand.induct)
  case (1 s)
  then show ?case
    by (subst (1 2 3) tryStartNext.simps) (simp split: list.split)
next
  case (2 s0 c)
  then show ?case
    by (subst (1 2 3) startCommand.simps)
      (simp add: Let_def split: cmd_type.split ik_result.split)
next
  case (3 s c r)
  then show ?case
    by (subst (1 2 3) finishCommand.simps) simp
qed

lemma sched_posted:
  "prefix (posted s) (posted (tryStartNext s))"
  "prefix (posted s0) (posted (startCommand s0 c))"
  "prefix (posted s @ [CmdDone (cmd_id c) r]) (posted (finishCommand s c r))"
proof (induction s and s0 c and s c r rule: tryStartNext_startCommand_finishCommand.induct)
  case (1 s)
  then show ?case
    by (subst tryStartNext.simps) (simp split: list.split)
next
  case (2 s0 c)
  have p: "prefix xs zs" if "prefix (xs @ ys) zs" for xs ys zs :: "message list"
    using that by (rule append_prefixD)
  note ih = 2(1) [OF refl, THEN p] 2(2) [OF refl, THEN p] 2(3) [OF refl, THEN p]
  show ?case
    by (subst startCommand.simps)
      (auto simp: Let_def split: cmd_type.split ik_result.split dest: ih)
next
  case (3 s c r)
  then show ?case
    by (subst finishCommand.simps) simp
qed

lemma computeDuration_floor: "0.08 \<le> computeDuration s qS qT"
  by (simp add: computeDuration_def Let_def)

lemma sched_current_runnable:
  "current_runnable s \<Longrightarrow> current_runnable (tryStartNext s)"
  "current_runnable (startCommand s0 c)"
  "current_runnable (finishCommand s c r)"
proof (induction s and s0 c and s c r rule: tryStartNext_startCommand_finishCommand.induct)
  case (1 s)
  then show ?case
    by (subst tryStartNext.simps) (simp split: list.split)
next
  case (2 s0 c)
  note ih = 2(1) [OF refl] 2(2) [OF refl] 2(3) [OF refl]
  show ?case
    by (subst startCommand.simps)
      (auto simp: Let_def current_runnable_def runnable_def motion_ready_def
        computeDuration_floor [simplified] split: cmd_type.split ik_result.split dest: ih)
next
  case (3 s c r)
  then show ?case
    by (subst finishCommand.simps) (simp add: current_runnable_def)
qed

lemma service_order_idle:
  "currentCmd s = None \<Longrightarrow> service_order s = completed s @ map cmd_id (cmdQueue s)"
  by (simp add: service_order_def pending_def)

lemma sched_service_order:
  "busy_iff_current s \<Longrightarrow> prefix (service_order s) (service_order (tryStartNext s))"
  "prefix (completed s0 @ cmd_id c # map cmd_id (cmdQueue s0))
     (service_order (startCommand s0 c))"
  "prefix (completed s @ cmd_id c # map cmd_id (cmdQueue s))
     (service_order (finishCommand s c r))"
proof (induction s and s0 c and s c r rule: tryStartNext_startCommand_finishCommand.induct)
  case (1 s)
  show ?case
  proof (cases "busy s")
    case True
    then show ?thesis by (subst tryStartNext.simps) simp
  next
    case False
    then have idle: "currentCmd s = None"
      using "1.prems" by (simp add: busy_iff_current_def)
    show ?thesis
    proof (cases "cmdQueue s")
      case Nil
      with False show ?thesis by (subst tryStartNext.simps) simp
    next
      case (Cons c rest)
      have "tryStartNext s = startCommand (s\<lparr>cmdQueue := rest\<rparr>) c"
        using False Cons by (subst tryStartNext.simps) simp
      moreover have "service_order s = completed s @ cmd_id c # map cmd_id rest"
        using idle Cons by (simp add: service_order_idle)
      ultimately show ?thesis
        using "1.IH" [OF False Cons] by (simp add: completed_def)
    qed
  qed
next
  case (2 s0 c)
  let ?s = "s0\<lparr>busy := True, currentCmd := Some c, st_t := 0\<rparr>"
  have cut: "prefix (xs @ i # ys) zs" if "prefix (xs @ i # ys @ ws) zs"
    for xs ys ws zs :: "ident list" and i
    using that append_prefixD [of "xs @ i # ys" ws zs] by simp
  have a: "ctype c = MOVE_TO x y \<Longrightarrow> ik x y = IkFail reason \<Longrightarrow>
      prefix (completed s0 @ cmd_id c # map cmd_id (cmdQueue s0))
        (service_order (finishCommand ?s c (Failed reason)))" for x y reason
    using 2(1) [OF refl] by (simp add: completed_def)
  have b: "ctype c = LINE_TO x y st \<Longrightarrow>
      prefix (completed s0 @ cmd_id c # map cmd_id (cmdQueue s0))
        (service_order (finishCommand
           (?s\<lparr>cmdQueue := cmdQueue ?s @ line_subs ?s c x y st\<rparr>) c Expanded))" for x y st
    using 2(2) [OF refl, of x y st] by (auto simp: completed_def intro: cut)
  have d: "ctype c = OTHER ty \<Longrightarrow>
      prefix (completed s0 @ cmd_id c # map cmd_id (cmdQueue s0))
        (service_order (finishCommand ?s c (Failed ''unknown-cmd'')))" for ty
    using 2(3) [OF refl] by (simp add: completed_def)
  show ?case
    by (subst startCommand.simps)
      (auto simp: Let_def service_order_def pending_def completed_def
        split: cmd_type.split ik_result.split
        dest: a [unfolded service_order_def pending_def completed_def]
              b [unfolded service_order_def pending_def completed_def]
              d [unfolded service_order_def pending_def completed_def])
next
  case (3 s c r)
  let ?s = "s\<lparr>busy := False, currentCmd := None,
               posted := posted s @ [CmdDone (cmd_id c) r]\<rparr>"
  have "busy_iff_current ?s" by (simp add: busy_iff_current_def)
  from 3 [OF this] show ?case
    by (subst finishCommand.simps) (simp add: service_order_def pending_def completed_def)
qed

section \<open>The tick\<close>

lemma progress_le_one: "progress e d = Some u \<Longrightarrow> u \<le> 1"
  by (auto simp: progress_def clamp_def split: option.splits if_splits)

lemma smoothstep_one: "smoothstep 1 = 1"
  by (simp add: smoothstep_def)

lemma lerp_one: "lerp a b 1 = b"
  by (simp add: lerp_def)

lemma update_shapes:
  assumes "update dt s = Inr s'"
  obtains (same) "s' = s"
    | (waiting) "s' = s\<lparr>st_t := st_t s + dt\<rparr>"
    | (slept) c where "busy s" and "currentCmd s = Some c"
        and "s' = finishCommand (s\<lparr>st_t := st_t s + dt\<rparr>) c Done"
    | (moving) a b where "s' = s\<lparr>st_t := st_t s + dt, st_q := a, toolPath := b\<rparr>"
    | (arrived) a b c r where "busy s" and "currentCmd s = Some c"
        and "s' = finishCommand (s\<lparr>st_t := st_t s + dt, st_q := a, toolPath := b\<rparr>) c r"
proof (cases "busy s")
  case False
  with assms have "s' = s" by (simp add: update_def)
  then show ?thesis by (rule same)
next
  case True
  note True' = this
  show ?thesis
  proof (cases "currentCmd s")
    case None
    with True assms have "s' = s" by (simp add: update_def)
    then show ?thesis by (rule same)
  next
    case (Some c)
    let ?s = "s\<lparr>st_t := st_t s + dt\<rparr>"
    have m: ?thesis if "update_motion ?s c = Inr s'"
    proof -
      from that obtain qS qT u where
        *: "qStart c = Some qS" "qTarget c = Some qT"
           "progress (st_t ?s) (duration c) = Some u"
        by (auto simp: update_motion_def split: option.splits)
      let ?q = "(lerp (fst qS) (fst qT) (smoothstep u), lerp (snd qS) (snd qT) (smoothstep u))"
      let ?p = "toolPath s @ [(x2 (fk ?q), y2 (fk ?q))]"
      show ?thesis
      proof (cases "u \<ge> 1")
        case True
        with that * have
          "s' = finishCommand (s\<lparr>st_t := st_t s + dt, st_q := ?q, toolPath := ?p\<rparr>) c
                  (DoneIk (ik_chosen c))"
          by (simp add: update_motion_def Let_def)
        with True' Some show ?thesis by (intro arrived)
      next
        case False
        with that * have "s' = s\<lparr>st_t := st_t s + dt, st_q := ?q, toolPath := ?p\<rparr>"
          by (simp add: update_motion_def Let_def)
        then show ?thesis by (rule moving)
      qed
    qed
    show ?thesis
    proof (cases "ctype c")
      case HOME
      with True Some assms show ?thesis by (intro m) (simp add: update_def Let_def)
    next
      case (SET_JOINTS d0 d1)
      with True Some assms show ?thesis by (intro m) (simp add: update_def Let_def)
    next
      case (MOVE_TO x y)
      with True Some assms show ?thesis by (intro m) (simp add: update_def Let_def)
    next
      case (SLEEP seconds)
      with True Some assms have "s' = ?s \<or> s' = finishCommand ?s c Done"
        by (auto simp: update_def Let_def split: option.splits if_splits)
      then show ?thesis using waiting slept [OF True Some] by blast
    next
      case (LINE_TO x y st)
      with True Some assms have "s' = ?s" by (simp add: update_def Let_def)
      then show ?thesis by (rule waiting)
    next
      case (OTHER ty)
      with True Some assms have "s' = ?s" by (simp add: update_def Let_def)
      then show ?thesis by (rule waiting)
    qed
  qed
qed

lemma update_busy_iff_current:
  assumes "busy_iff_current s" and "update dt s = Inr s'"
  shows "busy_iff_current s'"
  using assms(2)
proof (cases rule: update_shapes)
  case same
  with assms(1) show ?thesis by simp
next
  case waiting
  with assms(1) show ?thesis by (simp add: busy_iff_current_def)
next
  case (slept c)
  then show ?thesis by (simp add: sched_busy_iff_current)
next
  case (moving a b)
  with assms(1) show ?thesis by (simp add: busy_iff_current_def)
next
  case (arrived a b c r)
  then show ?thesis by (simp add: sched_busy_iff_current)
qed

lemma update_total:
  assumes "current_runnable s"
  shows "\<exists>s'. update dt s = Inr s'"
proof (cases "busy s \<and> currentCmd s \<noteq> None")
  case False
  then show ?thesis by (auto simp: update_def)
next
  case True
  then obtain c where c: "currentCmd s = Some c" by auto
  with assms have r: "runnable c" by (simp add: current_runnable_def)
  show ?thesis
    using True c r
    by (auto simp: update_def update_motion_def Let_def runnable_def motion_ready_def
        progress_def split: cmd_type.splits option.splits)
qed

lemma update_current_runnable:
  assumes "current_runnable s" and "update dt s = Inr s'"
  shows "current_runnable s'"
  using assms(2)
proof (cases rule: update_shapes)
  case same
  with assms(1) show ?thesis by simp
next
  case waiting
  with assms(1) show ?thesis by (simp add: current_runnable_def)
next
  case (slept c)
  then show ?thesis by (simp add: sched_current_runnable)
next
  case (moving a b)
  with assms(1) show ?thesis by (simp add: current_runnable_def)
next
  case (arrived a b c r)
  then show ?thesis by (simp add: sched_current_runnable)
qed

lemma enqueue_busy_iff_current: "busy_iff_current s \<Longrightarrow> busy_iff_current (enqueue c s)"
  unfolding enqueue_def by (rule sched_busy_iff_current) (simp add: busy_iff_current_def)

lemma enqueue_current_runnable: "current_runnable s \<Longrightarrow> current_runnable (enqueue c s)"
  unfolding enqueue_def by (rule sched_current_runnable) (simp add: current_runnable_def)

lemma enqueue_when_busy: "busy s \<Longrightarrow> enqueue c s = s\<lparr>cmdQueue := cmdQueue s @ [c]\<rparr>"
  by (simp add: enqueue_def tryStartNext.simps)

text \<open>The loop of the \<open>LINE_TO\<close> branch, written with \<open>enqueue\<close>, appends its commands.\<close>

lemma line_loop_enqueue:
  "busy s \<Longrightarrow> foldl (\<lambda>s' k. enqueue k s') s ks = s\<lparr>cmdQueue := cmdQueue s @ ks\<rparr>"
proof (induction ks arbitrary: s)
  case Nil
  then show ?case by simp
next
  case (Cons k ks)
  then show ?case by (simp add: enqueue_when_busy)
qed

section \<open>Properties of the engine\<close>

lemmas sched_simps = tryStartNext.simps startCommand.simps finishCommand.simps

lemma clamp_q1_quarter: "clamp (pi / 2) q1Min q1Max = pi / 2"
proof -
  have "- (17 * pi / 9) \<le> 0" by simp
  also have "0 \<le> pi" by simp
  finally show ?thesis
    by (simp add: clamp_def deg2rad_def q1Min_def q1Max_def min_def max_def)
qed

lemma clamp_q2_zero: "clamp 0 q2Min q2Max = 0"
  by (simp add: clamp_def deg2rad_def q2Min_def q2Max_def)

lemma computeDuration_quarter:
  assumes "speedScale s = v" and "0.05 \<le> v" and "v \<le> 1"
  shows "computeDuration s (0, 0) (pi / 2, 0) = 3 / (4 * v)"
proof -
  have v: "0 < v" using assms(2) by simp
  have c: "clamp v 0.05 1 = v" using assms(2,3) by (simp add: clamp_def)
  have m: "max \<bar>pi / 2 - 0\<bar> \<bar>0 - 0 :: real\<bar> = pi / 2" by simp
  have e: "(pi / 2) / (maxSpeed * v) = 3 / (4 * v)"
    using v by (simp add: maxSpeed_def deg2rad_def field_simps)
  have f: "0.08 \<le> 3 / (4 * v)"
    using v assms(3) by (simp add: field_simps)
  have "computeDuration s (0, 0) (pi / 2, 0) = max 0.08 ((pi / 2) / (maxSpeed * v))"
    using c assms(1) by (simp add: computeDuration_def Let_def)
  also have "\<dots> = max 0.08 (3 / (4 * v))" by (simp only: e)
  also have "\<dots> = 3 / (4 * v)" using f by (rule max_absorb2)
  finally show ?thesis .
qed


lemma turning_eval:
  "turning =
     \<lparr> st_q = (0, 0), speedScale = 0.7, toolPath = [], busy = True,
       currentCmd = Some \<lparr> cmd_id = NumId 1, ctype = SET_JOINTS 90 0, fromLine = False,
         parentId = None, qStart = Some (0, 0), qTarget = Some (pi / 2, 0),
         duration = Some (15 / 14), ik_sol = None \<rparr>,
       st_t = 0, cmdQueue = [], posted = [] \<rparr>"
  by (simp add: turning_def enqueue_def init_state_def new_cmd_def sched_simps Let_def
      clamp_q1_quarter clamp_q2_zero deg2rad_def computeDuration_quarter [where v = "0.7"])

lemma turning_arrives:
  "update 2 turning =
     Inr \<lparr> st_q = (pi / 2, 0), speedScale = 0.7, toolPath = [(0, 280)], busy = False,
           currentCmd = None, st_t = 2, cmdQueue = [],
           posted = [CmdDone (NumId 1) (DoneIk None)] \<rparr>"
  by (simp add: turning_eval update_def update_motion_def progress_def clamp_def Let_def
      smoothstep_def lerp_def sched_simps fk_def L1_def L2_def ik_chosen_def)

lemma init_busy_iff_current: "busy_iff_current init_state"
  by (simp add: busy_iff_current_def init_state_def)

text \<open>
  Claim C7. \<open>busy == true\<close> iff \<open>currentCmd != null\<close> holds in the initial state and is
  preserved by \<open>enqueue\<close>, \<open>tryStartNext\<close> and \<open>update\<close>; \<open>startCommand\<close> (every kind of
  command, the immediate-finish branches included), \<open>finishCommand\<close>, stop and hard reset
  establish it from any state. \<open>update\<close> returns a state whenever the executing command
  is one that \<open>startCommand\<close> has prepared.
\<close>

theorem busy_iff_current_invariant:
  "busy_iff_current init_state
   \<and> (busy_iff_current s \<longrightarrow> busy_iff_current (enqueue c s))
   \<and> (busy_iff_current s \<longrightarrow> busy_iff_current (tryStartNext s))
   \<and> busy_iff_current (startCommand s c)
   \<and> busy_iff_current (finishCommand s c r)
   \<and> (busy_iff_current s \<longrightarrow>
        (case update dt s of Inl e \<Rightarrow> True | Inr s' \<Rightarrow> busy_iff_current s'))
   \<and> (current_runnable s \<longrightarrow> (\<exists>s'. update dt s = Inr s'))
   \<and> busy_iff_current (stop s)
   \<and> busy_iff_current (hardResetSim s)"
  using update_total [of s dt]
  by (auto simp: init_busy_iff_current enqueue_busy_iff_current sched_busy_iff_current
      update_busy_iff_current split: sum.split)
    (simp_all add: busy_iff_current_def stop_def hardResetSim_def)

theorem busy_iff_current_invariant_witness:
  "busy_iff_current turning \<and> current_runnable turning
   \<and> busy_iff_current (enqueue (new_cmd (NumId 2) HOME) turning)
   \<and> busy_iff_current (tryStartNext turning)
   \<and> (case update 2 turning of Inl e \<Rightarrow> False | Inr s' \<Rightarrow> busy_iff_current s')"
proof -
  have b: "busy_iff_current turning"
    by (simp add: turning_eval busy_iff_current_def)
  have r: "current_runnable turning"
    by (simp add: turning_eval current_runnable_def runnable_def motion_ready_def)
  show ?thesis
    using b r busy_iff_current_invariant [of turning "new_cmd (NumId 2) HOME" _ 2]
    by (simp add: turning_arrives)
qed

text \<open>
  Claim C8. Starting a \<open>MOVE_TO\<close> whose target \<open>ik\<close> rejects finishes the command in the
  same call: the message \<open>cmd_done\<close> with \<open>{ok: false, error: reason}\<close> is the next one
  posted, and the joint angles and the toolpath are those from before the call.
\<close>

theorem move_to_rejected:
  assumes "ctype c = MOVE_TO x y" and "ik x y = IkFail reason"
  shows "startCommand s c =
           finishCommand (s\<lparr>busy := True, currentCmd := Some c, st_t := 0\<rparr>) c (Failed reason)
         \<and> prefix (posted s @ [CmdDone (cmd_id c) (Failed reason)])
             (posted (startCommand s c))
         \<and> st_q (startCommand s c) = st_q s
         \<and> toolPath (startCommand s c) = toolPath s"
proof -
  let ?s = "s\<lparr>busy := True, currentCmd := Some c, st_t := 0\<rparr>"
  have e: "startCommand s c = finishCommand ?s c (Failed reason)"
    using assms by (subst startCommand.simps) (simp add: Let_def)
  have "prefix (posted ?s @ [CmdDone (cmd_id c) (Failed reason)])
          (posted (finishCommand ?s c (Failed reason)))"
    by (rule sched_posted)
  then show ?thesis
    using e by (simp add: sched_pose)
qed

theorem move_to_rejected_witness:
  "ctype (new_cmd (NumId 1) (MOVE_TO 281 0)) = MOVE_TO 281 0
   \<and> ik 281 0 = IkFail ''unreachable''
   \<and> startCommand init_state (new_cmd (NumId 1) (MOVE_TO 281 0)) =
       init_state\<lparr>posted := [CmdDone (NumId 1) (Failed ''unreachable'')]\<rparr>"
proof -
  have i: "ik 281 0 = IkFail ''unreachable''"
    by (simp add: ik_def Let_def c2_of_def L1_def L2_def)
  have t: "ctype (new_cmd (NumId 1) (MOVE_TO 281 0)) = MOVE_TO 281 0"
    by (simp add: new_cmd_def)
  show ?thesis
    using i t move_to_rejected [OF t i, of init_state]
    by (simp add: new_cmd_def init_state_def sched_simps)
qed

text \<open>
  Claim C10. When a tick posts the completion of the executing \<open>HOME\<close>, \<open>SET_JOINTS\<close> or
  \<open>MOVE_TO\<close> command, the joint angles after the tick are exactly the command's
  \<open>qTarget\<close>, and the result is \<open>{ok: true, ik: cmd.ik?.chosen}\<close>.
\<close>

theorem motion_completes_at_target:
  assumes "busy s" and "currentCmd s = Some c" and "is_motion c"
    and "update dt s = Inr s'"
    and "prefix (posted s @ [CmdDone (cmd_id c) r]) (posted s')"
  shows "qTarget c = Some (st_q s') \<and> r = DoneIk (ik_chosen c)"
proof -
  let ?s = "s\<lparr>st_t := st_t s + dt\<rparr>"
  have m: "update_motion ?s c = Inr s'"
    using assms(1-4) by (auto simp: update_def Let_def is_motion_def split: cmd_type.splits)
  then obtain qS qT u where
    *: "qStart c = Some qS" "qTarget c = Some qT" "progress (st_t ?s) (duration c) = Some u"
    by (auto simp: update_motion_def split: option.splits)
  let ?q = "(lerp (fst qS) (fst qT) (smoothstep u), lerp (snd qS) (snd qT) (smoothstep u))"
  let ?s2 = "?s\<lparr>st_q := ?q, toolPath := toolPath ?s @ [(x2 (fk ?q), y2 (fk ?q))]\<rparr>"
  have fin: "1 \<le> u"
  proof (rule ccontr)
    assume "\<not> 1 \<le> u"
    with m * have "s' = ?s2" by (simp add: update_motion_def Let_def)
    then have "posted s' = posted s" by simp
    with assms(5) show False by simp
  qed
  with progress_le_one [OF *(3)] have u: "u = 1" by simp
  from m * u have s': "s' = finishCommand ?s2 c (DoneIk (ik_chosen c))"
    by (simp add: update_motion_def Let_def)
  have "st_q s' = st_q ?s2" unfolding s' by (simp add: sched_pose)
  then have q: "st_q s' = qT" using u by (simp add: smoothstep_one lerp_one)
  have "prefix (posted ?s2 @ [CmdDone (cmd_id c) (DoneIk (ik_chosen c))]) (posted s')"
    unfolding s' by (rule sched_posted)
  then have "prefix (posted s @ [CmdDone (cmd_id c) (DoneIk (ik_chosen c))]) (posted s')"
    by simp
  with assms(5) have "r = DoneIk (ik_chosen c)"
    by (auto simp: prefix_def)
  with q * show ?thesis by simp
qed

theorem motion_completes_at_target_witness:
  "busy turning
   \<and> map_option cmd_id (currentCmd turning) = Some (NumId 1)
   \<and> map_option is_motion (currentCmd turning) = Some True
   \<and> map_option qTarget (currentCmd turning) = Some (Some (pi / 2, 0))
   \<and> map_sum id posted (update 2 turning) = Inr [CmdDone (NumId 1) (DoneIk None)]
   \<and> map_sum id st_q (update 2 turning) = Inr (pi / 2, 0)"
proof -
  let ?c = "\<lparr> cmd_id = NumId 1, ctype = SET_JOINTS 90 0, fromLine = False,
         parentId = None, qStart = Some (0, 0), qTarget = Some (pi / 2, 0),
         duration = Some (15 / 14), ik_sol = None \<rparr>"
  let ?s' = "\<lparr> st_q = (pi / 2, 0), speedScale = 0.7, toolPath = [(0, 280)], busy = False,
           currentCmd = None, st_t = 2, cmdQueue = [],
           posted = [CmdDone (NumId 1) (DoneIk None)] \<rparr>"
  have b: "busy turning" and c: "currentCmd turning = Some ?c"
    by (simp_all add: turning_eval)
  have m: "is_motion ?c" by (simp add: is_motion_def)
  have p: "prefix (posted turning @ [CmdDone (cmd_id ?c) (DoneIk None)]) (posted ?s')"
    by (simp add: turning_eval)
  show ?thesis
    using motion_completes_at_target [OF b c m turning_arrives p] b c m
    by (simp add: turning_arrives)
qed

section \<open>Expansion of \<open>LINE_TO\<close> and service order\<close>

lemma string_of_digit: "string_of_nat (Suc 0) = ''1''" "string_of_nat 2 = ''2''"
  "string_of_nat 3 = ''3''" "string_of_nat 7 = ''7''"
  by (simp_all add: string_of_nat.simps digit_char_def)

lemma toInt32_small: "toInt32 2 = 2" "toInt32 3 = 3"
  by (simp_all add: toInt32_def trunc_def)

lemma upt_small: "[Suc 0 ..< 3] = [Suc 0, 2]"
  by (simp add: upt_rec)

lemma fk_home: "x2 (fk (0, 0)) = 280" "y2 (fk (0, 0)) = 0"
  by (simp_all add: fk_def L1_def L2_def)

lemma rne_of_int: "rne (of_int k) = k"
  by (simp add: rne_def)

lemma fl_binade:
  assumes "x \<noteq> 0" and "2 powi L \<le> \<bar>x\<bar>" and "\<bar>x\<bar> < 2 powi (L + 1)" and "- 1022 \<le> L"
  shows "fl x = of_int (rne (x / 2 powi (L - 52))) * 2 powi (L - 52)"
proof -
  have pos: "0 < \<bar>x\<bar>" using assms(1) by simp
  have p: "2 powr (real_of_int k) = (2::real) powi k" for k
    by (simp add: powr_real_of_int')
  have a: "2 powr (real_of_int L) \<le> \<bar>x\<bar>"
    unfolding p by (rule assms(2))
  have "\<bar>x\<bar> < 2 powr (real_of_int (L + 1))"
    unfolding p by (rule assms(3))
  then have b: "\<bar>x\<bar> < 2 powr (real_of_int L + 1)"
    by (simp only: of_int_add of_int_1)
  have l: "\<lfloor>log 2 \<bar>x\<bar>\<rfloor> = L"
    using floor_log_eq_powr_iff [OF pos, of 2 L] a b by simp
  have m: "max (L - 52) (- 1074) = L - 52"
    using assms(4) by simp
  show ?thesis
    unfolding fl_def Let_def l m using assms(1) by (simp only: if_False)
qed

lemma fl_exact:
  assumes "x \<noteq> 0" and "2 powi L \<le> \<bar>x\<bar>" and "\<bar>x\<bar> < 2 powi (L + 1)" and "- 1022 \<le> L"
    and "x / 2 powi (L - 52) = of_int m"
  shows "fl x = x"
proof -
  have "fl x = of_int (rne (of_int m)) * 2 powi (L - 52)"
    using fl_binade [OF assms(1-4)] assms(5) by simp
  also have "\<dots> = (x / 2 powi (L - 52)) * 2 powi (L - 52)"
    by (simp add: rne_of_int assms(5))
  also have "\<dots> = x" by simp
  finally show ?thesis .
qed

lemma fl_one: "fl 1 = 1"
  by (rule fl_exact [where L = 0 and m = "2 ^ 52"]) (simp_all add: power_int_minus_divide)

lemma fl_half: "fl (1 / 2) = 1 / 2"
  by (rule fl_exact [where L = "- 1" and m = "2 ^ 52"]) (simp_all add: power_int_minus_divide)

lemma fl_tenth: "fl (1 / 10) = 3602879701896397 / 36028797018963968"
proof -
  have "fl (1 / 10) = of_int (rne ((1 / 10) / 2 powi (- 4 - 52))) * 2 powi (- 4 - 52)"
    by (rule fl_binade) (simp_all add: power_int_minus_divide)
  also have "rne ((1 / 10) / 2 powi (- 4 - 52)) = 7205759403792794"
    by (simp add: rne_def power_int_minus_divide Let_def)
  finally show ?thesis by (simp add: power_int_minus_divide)
qed


lemma fl_of_int:
  assumes "\<bar>k\<bar> < 2 ^ 53"
  shows "fl (of_int k) = of_int k"
proof (cases "k = 0")
  case True
  then show ?thesis by (simp add: fl_def)
next
  case False
  define x :: real where "x = of_int k"
  define L where "L = \<lfloor>log 2 \<bar>x\<bar>\<rfloor>"
  have ax: "\<bar>x\<bar> = of_int \<bar>k\<bar>" by (simp add: x_def)
  have "1 \<le> \<bar>k\<bar>" using False by simp
  then have x1: "1 \<le> \<bar>x\<bar>" unfolding ax by (simp only: of_int_1_le_iff)
  have "real_of_int \<bar>k\<bar> < of_int (2 ^ 53)" using assms by (simp only: of_int_less_iff)
  then have x53: "\<bar>x\<bar> < 2 ^ 53" unfolding ax by simp
  have pos: "0 < \<bar>x\<bar>" using x1 by simp
  have p: "2 powr (real_of_int j) = (2::real) powi j" for j
    by (simp add: powr_real_of_int')
  have "2 powr (real_of_int L) \<le> \<bar>x\<bar> \<and> \<bar>x\<bar> < 2 powr (real_of_int L + 1)"
    using floor_log_eq_powr_iff [OF pos, of 2 L] L_def by simp
  then have lo: "2 powi L \<le> \<bar>x\<bar>" and hi: "\<bar>x\<bar> < 2 powi (L + 1)"
    using p [of L] p [of "L + 1"] by simp_all
  have "0 \<le> log 2 \<bar>x\<bar>" using x1 by simp
  then have L0: "0 \<le> L" unfolding L_def by simp
  have "\<bar>x\<bar> < 2 powr 53" using x53 by simp
  then have "log 2 \<bar>x\<bar> < 53" using pos by (simp only: log_less_iff [of 2 "\<bar>x\<bar>" 53, OF _ pos] one_less_numeral_iff semiring_norm simp_thms)
  then have L52: "L \<le> 52" unfolding L_def by linarith
  define n where "n = nat (52 - L)"
  have e: "L - 52 = - int n" using L52 by (simp add: n_def)
  have d: "x / 2 powi (L - 52) = of_int (k * 2 ^ n)"
    unfolding e by (simp add: power_int_minus x_def field_simps)
  have "fl x = x"
    using _ lo hi _ d by (rule fl_exact) (use False L0 in \<open>simp_all add: x_def\<close>)
  then show ?thesis by (simp add: x_def)
qed

lemma fl_zero: "fl 0 = 0"
  by (simp add: fl_def)

lemma fl_small:
  "fl 25 = 25" "fl 50 = 50" "fl 100 = 100" "fl 190 = 190" "fl 280 = 280"
  "fl (- 90) = - 90" "fl (- 180) = - 180"
  using fl_of_int [of 25] fl_of_int [of 50] fl_of_int [of 100] fl_of_int [of 190]
    fl_of_int [of 280] fl_of_int [of "- 90"] fl_of_int [of "- 180"]
  by simp_all

lemma toInt32_in_range:
  assumes "- (2 ^ 31) \<le> trunc r" and "trunc r < 2 ^ 31"
  shows "toInt32 r = trunc r"
proof (cases "0 \<le> trunc r")
  case True
  with assms(2) have "trunc r mod 2 ^ 32 = trunc r" by simp
  with assms(2) show ?thesis by (simp add: toInt32_def Let_def)
next
  case False
  have "(trunc r + 2 ^ 32) mod 2 ^ 32 = trunc r + 2 ^ 32"
    using assms(1) False by (intro mod_pos_pos_trivial) simp_all
  moreover have "(trunc r + 2 ^ 32) mod 2 ^ 32 = trunc r mod 2 ^ 32"
    by (rule mod_add_self2)
  ultimately have m: "trunc r mod 2 ^ 32 = trunc r + 2 ^ 32" by (simp only:)
  show ?thesis using assms(1) m by (simp add: toInt32_def Let_def)
qed

lemma line_steps_ge_2: "2 \<le> nat (line_steps st)"
  by (simp add: line_steps_def)

lemma length_line_subs: "length (line_subs s c x y st) = nat (line_steps st)"
  by (simp add: line_subs_def Let_def del: upt_Suc)

lemma line_subs_state:
  "st_q s' = st_q s \<Longrightarrow> line_subs s' c x y st = line_subs s c x y st"
  by (simp add: line_subs_def)

lemma line_subs_nth:
  assumes "1 \<le> i" and "i \<le> nat (line_steps st)"
  shows "line_subs s c x y st ! (i - 1) =
         line_sub c (x2 (fk (st_q s))) (y2 (fk (st_q s))) x y (line_steps st) i"
proof -
  have "i - 1 < length [1 ..< Suc (nat (line_steps st))]" using assms by simp
  then have "line_subs s c x y st ! (i - 1) =
      line_sub c (x2 (fk (st_q s))) (y2 (fk (st_q s))) x y (line_steps st)
        ([1 ..< Suc (nat (line_steps st))] ! (i - 1))"
    unfolding line_subs_def Let_def by (rule nth_map)
  also have "[1 ..< Suc (nat (line_steps st))] ! (i - 1) = i"
    using assms by (simp del: upt_Suc)
  finally show ?thesis .
qed

lemma startCommand_line_to:
  assumes "ctype c = LINE_TO x y st"
  shows "startCommand s c =
           finishCommand
             (s\<lparr>busy := True, currentCmd := Some c, st_t := 0,
                cmdQueue := cmdQueue s @ line_subs s c x y st\<rparr>) c Expanded"
proof -
  have "line_subs (s\<lparr>busy := True, currentCmd := Some c, st_t := 0\<rparr>) c x y st =
        line_subs s c x y st"
    by (rule line_subs_state) simp
  with assms show ?thesis
    by (subst startCommand.simps) (simp add: Let_def)
qed

text \<open>
  Claim C9, amended. Starting \<open>LINE_TO(x, y, steps)\<close> with id \<open>P\<close> appends
  \<open>n = max(2, steps | 0)\<close> commands to the queue and finishes the \<open>LINE_TO\<close> in the same
  call with \<open>{ok: true, note: "expanded"}\<close>; \<open>steps | 0\<close> is \<open>truncate(steps)\<close> whenever
  that fits in 32 signed bits. Command \<open>i\<close> (from \<open>1\<close> to \<open>n\<close>) has id \<open>"P:i"\<close> and is a
  \<open>MOVE_TO\<close> to \<open>x0 + (x - x0)*(i / n)\<close>, \<open>y0 + (y - y0)*(i / n)\<close>, where \<open>(x0, y0)\<close> is
  the end-effector position \<open>fk(q)\<close> and every operation is rounded as doubles round. For
  the last command the factor is \<open>1\<close>, so its target is \<open>x0 + (x - x0)\<close> with the
  subtraction and the addition rounded, which is \<open>(x, y)\<close> up to these roundings only. The
  command executing afterwards is never the \<open>LINE_TO\<close>.
\<close>

theorem line_to_expansion:
  assumes "ctype c = LINE_TO x y st"
  shows "startCommand s c =
           finishCommand
             (s\<lparr>busy := True, currentCmd := Some c, st_t := 0,
                cmdQueue := cmdQueue s @ line_subs s c x y st\<rparr>) c Expanded
         \<and> length (line_subs s c x y st) = nat (line_steps st)
         \<and> (- (2 ^ 31) \<le> trunc st \<and> trunc st < 2 ^ 31 \<longrightarrow>
              line_steps st = max 2 (trunc st))
         \<and> (\<forall>i \<in> {1 .. nat (line_steps st)}.
              cmd_id (line_subs s c x y st ! (i - 1)) =
                StrId (show_ident (cmd_id c) @ '':'' @ string_of_nat i)
              \<and> ctype (line_subs s c x y st ! (i - 1)) =
                  MOVE_TO
                    (fl (x2 (fk (st_q s))
                       + fl (fl (x - x2 (fk (st_q s)))
                              * fl (real i / real_of_int (line_steps st)))))
                    (fl (y2 (fk (st_q s))
                       + fl (fl (y - y2 (fk (st_q s)))
                              * fl (real i / real_of_int (line_steps st))))))
         \<and> ctype (last (line_subs s c x y st)) =
             MOVE_TO (fl (x2 (fk (st_q s)) + fl (fl (x - x2 (fk (st_q s))) * 1)))
                     (fl (y2 (fk (st_q s)) + fl (fl (y - y2 (fk (st_q s))) * 1)))
         \<and> prefix (posted s @ [CmdDone (cmd_id c) Expanded]) (posted (startCommand s c))
         \<and> current_runnable (startCommand s c)"
proof -
  let ?s = "s\<lparr>busy := True, currentCmd := Some c, st_t := 0\<rparr>"
  let ?n = "nat (line_steps st)"
  let ?subs = "line_subs s c x y st"
  let ?x0 = "x2 (fk (st_q s))"
  let ?y0 = "y2 (fk (st_q s))"
  have e: "startCommand s c =
      finishCommand (?s\<lparr>cmdQueue := cmdQueue s @ ?subs\<rparr>) c Expanded"
    using assms by (rule startCommand_line_to)
  have len: "length ?subs = ?n" by (rule length_line_subs)
  have rng: "line_steps st = max 2 (trunc st)"
    if "- (2 ^ 31) \<le> trunc st" "trunc st < 2 ^ 31"
    using toInt32_in_range [OF that] by (simp add: line_steps_def)
  have nth: "cmd_id (?subs ! (i - 1)) =
        StrId (show_ident (cmd_id c) @ '':'' @ string_of_nat i)
      \<and> ctype (?subs ! (i - 1)) =
          MOVE_TO
            (fl (?x0 + fl (fl (x - ?x0) * fl (real i / real_of_int (line_steps st)))))
            (fl (?y0 + fl (fl (y - ?y0) * fl (real i / real_of_int (line_steps st)))))"
    if "i \<in> {1 .. ?n}" for i
  proof -
    from that have "1 \<le> i" "i \<le> ?n" by simp_all
    then show ?thesis
      by (simp only: line_subs_nth) (simp add: line_sub_def Let_def)
  qed
  have ne: "?subs \<noteq> []" using len line_steps_ge_2 [of st] by auto
  have "last ?subs = ?subs ! (?n - 1)"
    using ne len by (simp add: last_conv_nth)
  also have "\<dots> = line_sub c ?x0 ?y0 x y (line_steps st) ?n"
    using line_steps_ge_2 [of st] by (intro line_subs_nth) simp_all
  finally have "ctype (last ?subs) = ctype (line_sub c ?x0 ?y0 x y (line_steps st) ?n)"
    by simp
  moreover have "real ?n / real_of_int (line_steps st) = 1"
    using line_steps_ge_2 [of st] by (simp add: line_steps_def)
  ultimately have lst: "ctype (last ?subs) =
      MOVE_TO (fl (?x0 + fl (fl (x - ?x0) * 1))) (fl (?y0 + fl (fl (y - ?y0) * 1)))"
    by (simp add: line_sub_def Let_def fl_one)
  have "prefix (posted (?s\<lparr>cmdQueue := cmdQueue s @ ?subs\<rparr>) @ [CmdDone (cmd_id c) Expanded])
          (posted (finishCommand (?s\<lparr>cmdQueue := cmdQueue s @ ?subs\<rparr>) c Expanded))"
    by (rule sched_posted)
  then have post: "prefix (posted s @ [CmdDone (cmd_id c) Expanded]) (posted (startCommand s c))"
    unfolding e by simp
  show ?thesis
    using e len rng nth lst post sched_current_runnable(2) [of s c] by blast
qed

lemma fl_line_back:
  "fl (3602879701896397 / 36028797018963968 - 280) = - (4924052873832038 / 2 ^ 44)"
  "fl (- (4924052873832038 / 2 ^ 44)) = - (4924052873832038 / 2 ^ 44)"
  "fl (280 + - (4924052873832038 / 2 ^ 44)) = 879609302221 / 8796093022208"
proof -
  have "fl (3602879701896397 / 36028797018963968 - 280) =
        of_int (rne ((3602879701896397 / 36028797018963968 - 280) / 2 powi (8 - 52)))
          * 2 powi (8 - 52)"
    by (rule fl_binade) (simp_all add: power_int_minus_divide)
  also have "rne ((3602879701896397 / 36028797018963968 - 280) / 2 powi (8 - 52)) =
        - 4924052873832038"
    by (simp add: rne_def power_int_minus_divide Let_def)
  finally show "fl (3602879701896397 / 36028797018963968 - 280) =
      - (4924052873832038 / 2 ^ 44)"
    by (simp add: power_int_minus_divide)
  show "fl (- (4924052873832038 / 2 ^ 44)) = - (4924052873832038 / 2 ^ 44)"
    by (rule fl_exact [where L = 8 and m = "- 4924052873832038"])
      (simp_all add: power_int_minus_divide)
  show "fl (280 + - (4924052873832038 / 2 ^ 44)) = 879609302221 / 8796093022208"
    using fl_exact [where x = "280 + - (4924052873832038 / 2 ^ 44)" and L = "- 4"
        and m = 7205759403794432]
    by (simp add: power_int_minus_divide)
qed

text \<open>
  Claim C9, as stated, fails in two ways. For a step count beyond 32 signed bits,
  \<open>2147483648 | 0\<close> is \<open>-2147483648\<close>, so two commands are pushed, not
  \<open>max(2, truncate(steps))\<close>. And the last target is not exactly \<open>(x, y)\<close>: for
  \<open>LINE_TO(0.1, 0, steps = 2)\<close> from the home pose, where \<open>x0 = 280\<close> and \<open>x\<close> is the double
  nearest to \<open>0.1\<close>, the subtraction \<open>x - 280\<close> is rounded and the last target is
  \<open>0.10000000000002274\<close>.
\<close>

theorem line_to_steps_counterexample:
  "length (line_subs init_state (new_cmd (NumId 1) (LINE_TO 0 0 2147483648)) 0 0 2147483648) = 2
   \<and> max 2 (trunc 2147483648) = 2147483648
   \<and> fl (1 / 10) = 3602879701896397 / 36028797018963968
   \<and> ctype (last (line_subs init_state
         (new_cmd (NumId 1) (LINE_TO (3602879701896397 / 36028797018963968) 0 2))
         (3602879701896397 / 36028797018963968) 0 2)) =
       MOVE_TO (879609302221 / 8796093022208) 0
   \<and> (879609302221 / 8796093022208 :: real) \<noteq> 3602879701896397 / 36028797018963968"
proof -
  have a: "length (line_subs init_state (new_cmd (NumId 1) (LINE_TO 0 0 2147483648))
      0 0 2147483648) = 2 \<and> max 2 (trunc 2147483648) = 2147483648"
    by (simp add: length_line_subs line_steps_def toInt32_def trunc_def)
  let ?x = "3602879701896397 / 36028797018963968 :: real"
  let ?c = "new_cmd (NumId 1) (LINE_TO ?x 0 2)"
  have q: "st_q init_state = (0, 0)" by (simp add: init_state_def deg2rad_def)
  have n: "line_steps 2 = 2" by (simp add: line_steps_def toInt32_small)
  have ne: "line_subs init_state ?c ?x 0 2 \<noteq> []"
    using length_line_subs [of init_state ?c ?x 0 2] n by auto
  have "last (line_subs init_state ?c ?x 0 2) =
        line_subs init_state ?c ?x 0 2 ! (2 - 1)"
    using ne length_line_subs [of init_state ?c ?x 0 2] n by (simp add: last_conv_nth)
  also have "\<dots> = line_sub ?c (x2 (fk (st_q init_state))) (y2 (fk (st_q init_state)))
       ?x 0 (line_steps 2) 2"
    by (rule line_subs_nth) (simp_all add: n)
  finally have "ctype (last (line_subs init_state ?c ?x 0 2)) =
        ctype (line_sub ?c 280 0 ?x 0 2 2)"
    by (simp add: q fk_home n)
  also have "\<dots> = MOVE_TO (fl (280 + fl (fl (?x - 280)))) 0"
    by (simp add: line_sub_def Let_def fl_one fl_zero)
  also have "fl (280 + fl (fl (?x - 280))) = 879609302221 / 8796093022208"
    by (simp only: fl_line_back)
  finally have b: "ctype (last (line_subs init_state ?c ?x 0 2)) =
      MOVE_TO (879609302221 / 8796093022208) 0" .
  have c: "(879609302221 / 8796093022208 :: real) \<noteq> ?x" by simp
  from a b c fl_tenth show ?thesis by blast
qed

theorem line_to_expansion_witness:
  "ctype (new_cmd (NumId 7) (LINE_TO 100 50 2)) = LINE_TO 100 50 2
   \<and> - (2 ^ 31) \<le> trunc 2 \<and> trunc 2 < 2 ^ 31 \<and> 1 \<in> {1 .. nat (line_steps 2)}
   \<and> max 2 (trunc 2) = 2
   \<and> length (line_subs init_state (new_cmd (NumId 7) (LINE_TO 100 50 2)) 100 50 2) = 2
   \<and> cmd_id (line_subs init_state (new_cmd (NumId 7) (LINE_TO 100 50 2)) 100 50 2 ! (1 - 1))
       = StrId ''7:1''
   \<and> ctype (line_subs init_state (new_cmd (NumId 7) (LINE_TO 100 50 2)) 100 50 2 ! (1 - 1))
       = MOVE_TO 190 25
   \<and> ctype (last (line_subs init_state (new_cmd (NumId 7) (LINE_TO 100 50 2)) 100 50 2))
       = MOVE_TO 100 50"
proof -
  let ?c = "new_cmd (NumId 7) (LINE_TO 100 50 2)"
  have t: "ctype ?c = LINE_TO 100 50 2" by (simp add: new_cmd_def)
  have tr: "trunc 2 = 2" by (simp add: trunc_def)
  have ls: "line_steps 2 = 2" by (simp add: line_steps_def toInt32_small)
  have q: "st_q init_state = (0, 0)" by (simp add: init_state_def deg2rad_def)
  have i: "show_ident (cmd_id ?c) = ''7''"
    by (simp add: new_cmd_def show_ident_def string_of_digit)
  note T = line_to_expansion [OF t, of init_state]
  from T have len: "length (line_subs init_state ?c 100 50 2) = 2"
    by (simp add: ls)
  from T have "ctype (last (line_subs init_state ?c 100 50 2)) =
      MOVE_TO (fl (x2 (fk (st_q init_state)) + fl (fl (100 - x2 (fk (st_q init_state))) * 1)))
              (fl (y2 (fk (st_q init_state)) + fl (fl (50 - y2 (fk (st_q init_state))) * 1)))"
    by blast
  then have lst: "ctype (last (line_subs init_state ?c 100 50 2)) = MOVE_TO 100 50"
    by (simp add: q fk_home fl_small)
  from T have "\<forall>i \<in> {1 .. nat (line_steps 2)}.
      cmd_id (line_subs init_state ?c 100 50 2 ! (i - 1)) =
        StrId (show_ident (cmd_id ?c) @ '':'' @ string_of_nat i)
      \<and> ctype (line_subs init_state ?c 100 50 2 ! (i - 1)) =
          MOVE_TO
            (fl (x2 (fk (st_q init_state))
               + fl (fl (100 - x2 (fk (st_q init_state)))
                      * fl (real i / real_of_int (line_steps 2)))))
            (fl (y2 (fk (st_q init_state))
               + fl (fl (50 - y2 (fk (st_q init_state)))
                      * fl (real i / real_of_int (line_steps 2)))))"
    by blast
  then have "cmd_id (line_subs init_state ?c 100 50 2 ! (1 - 1)) =
        StrId (show_ident (cmd_id ?c) @ '':'' @ string_of_nat 1)
      \<and> ctype (line_subs init_state ?c 100 50 2 ! (1 - 1)) =
          MOVE_TO
            (fl (x2 (fk (st_q init_state))
               + fl (fl (100 - x2 (fk (st_q init_state)))
                      * fl (real 1 / real_of_int (line_steps 2)))))
            (fl (y2 (fk (st_q init_state))
               + fl (fl (50 - y2 (fk (st_q init_state)))
                      * fl (real 1 / real_of_int (line_steps 2)))))"
    by (rule bspec) (simp add: ls)
  then have fst: "cmd_id (line_subs init_state ?c 100 50 2 ! (1 - 1)) = StrId ''7:1''
      \<and> ctype (line_subs init_state ?c 100 50 2 ! (1 - 1)) = MOVE_TO 190 25"
    by (simp add: i string_of_digit q fk_home ls fl_half fl_small)
  show ?thesis
    using t tr ls len lst fst by simp
qed

lemma fifo_scene_eval:
  "fifo_scene =
     \<lparr> st_q = (0, 0), speedScale = 0.7, toolPath = [], busy = True,
       currentCmd = Some ((new_cmd (NumId 1) (SLEEP 0.05))\<lparr>duration := Some 0.05\<rparr>),
       st_t = 0,
       cmdQueue = [new_cmd (NumId 2) (LINE_TO 100 100 2), new_cmd (NumId 3) HOME],
       posted = [] \<rparr>"
  by (simp add: fifo_scene_def enqueue_def init_state_def new_cmd_def sched_simps Let_def
      deg2rad_def)

lemma fifo_scene_tick:
  "update 0.05 fifo_scene =
     Inr \<lparr> st_q = (0, 0), speedScale = 0.7, toolPath = [], busy = True,
           currentCmd = Some ((new_cmd (NumId 3) HOME)
             \<lparr>qStart := Some (0, 0), qTarget := Some (0, 0), duration := Some 0.08\<rparr>),
           st_t = 0,
           cmdQueue = line_subs init_state (new_cmd (NumId 2) (LINE_TO 100 100 2)) 100 100 2,
           posted = [CmdDone (NumId 1) Done, CmdDone (NumId 2) Expanded] \<rparr>"
  by (simp add: fifo_scene_eval update_def new_cmd_def sched_simps Let_def line_subs_def
      line_steps_def toInt32_small computeDuration_def init_state_def deg2rad_def)

lemma map_cmd_id_line_subs:
  "map cmd_id (line_subs s b x y st) =
     map (\<lambda>i. StrId (show_ident (cmd_id b) @ '':'' @ string_of_nat i))
       [1 ..< Suc (nat (line_steps st))]"
  by (simp add: line_subs_def line_sub_def Let_def comp_def del: upt_Suc)

lemma fifo_subs_ids:
  "map cmd_id (line_subs init_state (new_cmd (NumId 2) (LINE_TO 100 100 2)) 100 100 2) =
     [StrId ''2:1'', StrId ''2:2'']"
  by (simp add: map_cmd_id_line_subs line_steps_def toInt32_small upt_small
      new_cmd_def show_ident_def string_of_digit)

text \<open>
  Claim C1, as stated, fails when \<open>C\<close> is already queued as the \<open>LINE_TO\<close> \<open>B\<close> starts.
  With \<open>SLEEP\<close> (id 1) executing and \<open>LINE_TO\<close> (id 2) and \<open>HOME\<close> (id 3) queued, the tick
  that ends the sleep expands the \<open>LINE_TO\<close> behind \<open>HOME\<close>: \<open>HOME\<close> is executing while both
  steps of the line still wait.
\<close>

theorem fifo_line_to_counterexample:
  "map_sum id queue_view (update 0.05 fifo_scene) =
     Inr ([NumId 1, NumId 2], Some (NumId 3), [StrId ''2:1'', StrId ''2:2''])"
proof -
  have i: "cmd_id (new_cmd (NumId 3) HOME) = NumId 3" by (simp add: new_cmd_def)
  show ?thesis
    unfolding fifo_scene_tick
    by (simp add: queue_view_def completed_def fifo_subs_ids i)
qed

text \<open>
  Claim C1, amended. The sequence of ids "completed, executing, queued" only ever grows at
  its tail: \<open>enqueue\<close> appends the new id behind everything pending, a tick keeps the
  sequence as a prefix, and starting a \<open>LINE_TO\<close> \<open>B\<close> puts \<open>B\<close> first, then every command
  that was queued when \<open>B\<close> started, then \<open>B:1\<close> to \<open>B:n\<close> in index order. Completions
  therefore follow the order in which ids entered the queue; the steps of \<open>B\<close> complete
  in index order, after the commands queued before \<open>B\<close> started and before those
  enqueued later.
\<close>

theorem service_order_append_only:
  "(busy_iff_current s \<longrightarrow>
      prefix (service_order s @ [cmd_id c]) (service_order (enqueue c s)))
   \<and> (busy_iff_current s \<longrightarrow>
        (case update dt s of Inl e \<Rightarrow> True
         | Inr s' \<Rightarrow> prefix (service_order s) (service_order s')))
   \<and> (ctype b = LINE_TO x y st \<longrightarrow>
        prefix (completed s @ cmd_id b # map cmd_id (cmdQueue s)
                  @ map (\<lambda>i. StrId (show_ident (cmd_id b) @ '':'' @ string_of_nat i))
                      [1 ..< Suc (nat (line_steps st))])
          (service_order (startCommand s b)))"
proof (intro conjI impI)
  assume inv: "busy_iff_current s"
  let ?s = "s\<lparr>cmdQueue := cmdQueue s @ [c]\<rparr>"
  have "busy_iff_current ?s" using inv by (simp add: busy_iff_current_def)
  then have "prefix (service_order ?s) (service_order (tryStartNext ?s))"
    by (rule sched_service_order)
  moreover have "service_order ?s = service_order s @ [cmd_id c]"
    by (simp add: service_order_def pending_def completed_def)
  ultimately show "prefix (service_order s @ [cmd_id c]) (service_order (enqueue c s))"
    by (simp add: enqueue_def)
next
  assume inv: "busy_iff_current s"
  show "case update dt s of Inl e \<Rightarrow> True
        | Inr s' \<Rightarrow> prefix (service_order s) (service_order s')"
  proof (cases "update dt s")
    case (Inl e)
    then show ?thesis by simp
  next
    case (Inr s')
    have fin: "prefix (service_order s) (service_order (finishCommand s1 k r))"
      if "currentCmd s = Some k" "posted s1 = posted s" "cmdQueue s1 = cmdQueue s"
      for s1 k r
      using sched_service_order(3) [of s1 k r] that
      by (simp add: service_order_def pending_def completed_def)
    from Inr have "prefix (service_order s) (service_order s')"
    proof (cases rule: update_shapes)
      case same
      then show ?thesis by simp
    next
      case waiting
      then show ?thesis by (simp add: service_order_def pending_def completed_def)
    next
      case (slept k)
      then show ?thesis by (simp add: fin)
    next
      case (moving a b)
      then show ?thesis by (simp add: service_order_def pending_def completed_def)
    next
      case (arrived a b k r)
      then show ?thesis by (simp add: fin)
    qed
    with Inr show ?thesis by simp
  qed
next
  assume t: "ctype b = LINE_TO x y st"
  let ?s = "s\<lparr>busy := True, currentCmd := Some b, st_t := 0\<rparr>"
  let ?subs = "line_subs s b x y st"
  have e: "startCommand s b = finishCommand (?s\<lparr>cmdQueue := cmdQueue s @ ?subs\<rparr>) b Expanded"
    using t by (rule startCommand_line_to)
  have "prefix (completed (?s\<lparr>cmdQueue := cmdQueue s @ ?subs\<rparr>)
                 @ cmd_id b # map cmd_id (cmdQueue (?s\<lparr>cmdQueue := cmdQueue s @ ?subs\<rparr>)))
          (service_order (finishCommand (?s\<lparr>cmdQueue := cmdQueue s @ ?subs\<rparr>) b Expanded))"
    by (rule sched_service_order)
  then show "prefix (completed s @ cmd_id b # map cmd_id (cmdQueue s)
                  @ map (\<lambda>i. StrId (show_ident (cmd_id b) @ '':'' @ string_of_nat i))
                      [1 ..< Suc (nat (line_steps st))])
          (service_order (startCommand s b))"
    unfolding e by (simp add: completed_def map_cmd_id_line_subs del: upt_Suc)
qed


theorem service_order_append_only_witness:
  "busy_iff_current fifo_scene
   \<and> ctype (new_cmd (NumId 2) (LINE_TO 100 100 2)) = LINE_TO 100 100 2
   \<and> service_order fifo_scene = [NumId 1, NumId 2, NumId 3]
   \<and> service_order (enqueue (new_cmd (NumId 4) HOME) fifo_scene) =
       [NumId 1, NumId 2, NumId 3, NumId 4]
   \<and> map_sum id service_order (update 0.05 fifo_scene) =
       Inr [NumId 1, NumId 2, NumId 3, StrId ''2:1'', StrId ''2:2'']
   \<and> service_order
        (startCommand (init_state\<lparr>cmdQueue := [new_cmd (NumId 3) HOME]\<rparr>)
           (new_cmd (NumId 2) (LINE_TO 100 100 2))) =
       [NumId 2, NumId 3, StrId ''2:1'', StrId ''2:2'']"
proof -
  let ?b = "new_cmd (NumId 2) (LINE_TO 100 100 2)"
  let ?s0 = "init_state\<lparr>cmdQueue := [new_cmd (NumId 3) HOME]\<rparr>"
  have inv: "busy_iff_current fifo_scene"
    by (simp add: fifo_scene_eval busy_iff_current_def)
  have t: "ctype ?b = LINE_TO 100 100 2" by (simp add: new_cmd_def)
  have i: "cmd_id (new_cmd n ty) = n" for n ty by (simp add: new_cmd_def)
  have o: "service_order fifo_scene = [NumId 1, NumId 2, NumId 3]"
    by (simp add: fifo_scene_eval service_order_def completed_def pending_def i)
  have e: "service_order (enqueue (new_cmd (NumId 4) HOME) fifo_scene) =
       [NumId 1, NumId 2, NumId 3, NumId 4]"
    by (simp add: fifo_scene_eval enqueue_when_busy service_order_def completed_def
        pending_def i)
  have u: "map_sum id service_order (update 0.05 fifo_scene) =
       Inr [NumId 1, NumId 2, NumId 3, StrId ''2:1'', StrId ''2:2'']"
    unfolding fifo_scene_tick
    by (simp add: service_order_def completed_def pending_def fifo_subs_ids i)
  have "startCommand ?s0 ?b =
     \<lparr> st_q = (0, 0), speedScale = 0.7, toolPath = [], busy = True,
       currentCmd = Some ((new_cmd (NumId 3) HOME)
         \<lparr>qStart := Some (0, 0), qTarget := Some (0, 0), duration := Some 0.08\<rparr>),
       st_t = 0,
       cmdQueue = line_subs init_state ?b 100 100 2,
       posted = [CmdDone (NumId 2) Expanded] \<rparr>"
    by (simp add: new_cmd_def sched_simps Let_def line_subs_def
        line_steps_def toInt32_small computeDuration_def init_state_def deg2rad_def)
  then have l: "service_order (startCommand ?s0 ?b) =
       [NumId 2, NumId 3, StrId ''2:1'', StrId ''2:2'']"
    by (simp add: service_order_def completed_def pending_def fifo_subs_ids i)
  show ?thesis
    using inv t o e u l
      service_order_append_only [where s = fifo_scene and c = "new_cmd (NumId 4) HOME"
        and dt = "0.05" and b = ?b and x = 100 and y = 100 and st = 2]
      service_order_append_only [where s = ?s0 and c = "new_cmd (NumId 4) HOME"
        and dt = "0.05" and b = ?b and x = 100 and y = 100 and st = 2]
    by simp
qed

section \<open>Speed changes\<close>

lemma forget_speed_eq_iff:
  "forget_speed s1 = forget_speed s \<longleftrightarrow>
     st_q s1 = st_q s \<and> toolPath s1 = toolPath s \<and> busy s1 = busy s
     \<and> st_t s1 = st_t s \<and> cmdQueue s1 = cmdQueue s \<and> posted s1 = posted s
     \<and> map_option (\<lambda>c. c\<lparr>duration := None\<rparr>) (currentCmd s1) =
         map_option (\<lambda>c. c\<lparr>duration := None\<rparr>) (currentCmd s)"
  by (cases s1, cases s) (auto simp: forget_speed_def)

lemma forget_speed_set_speed: "forget_speed (s\<lparr>speedScale := v\<rparr>) = forget_speed s"
  by (simp add: forget_speed_eq_iff)

lemma sched_forget_speed:
  "forget_speed s1 = forget_speed s \<Longrightarrow>
     forget_speed (tryStartNext s1) = forget_speed (tryStartNext s)"
  "forget_speed s1 = forget_speed s0 \<Longrightarrow>
     forget_speed (startCommand s1 c) = forget_speed (startCommand s0 c)"
  "forget_speed s1 = forget_speed s \<Longrightarrow>
     forget_speed (finishCommand s1 c r) = forget_speed (finishCommand s c r)"
proof (induction s and s0 c and s c r arbitrary: s1 and s1 and s1
    rule: tryStartNext_startCommand_finishCommand.induct)
  case (1 s)
  from "1.prems" have f: "busy s1 = busy s" "cmdQueue s1 = cmdQueue s"
    by (simp_all add: forget_speed_eq_iff)
  show ?case
  proof (cases "busy s")
    case True
    with f "1.prems" show ?thesis by (subst (1 2) tryStartNext.simps) simp
  next
    case False
    show ?thesis
    proof (cases "cmdQueue s")
      case Nil
      with False f "1.prems" show ?thesis by (subst (1 2) tryStartNext.simps) simp
    next
      case (Cons k rest)
      have a: "tryStartNext s = startCommand (s\<lparr>cmdQueue := rest\<rparr>) k"
        using False Cons by (subst tryStartNext.simps) simp
      have b: "tryStartNext s1 = startCommand (s1\<lparr>cmdQueue := rest\<rparr>) k"
        using False Cons f by (subst tryStartNext.simps) simp
      have "forget_speed (s1\<lparr>cmdQueue := rest\<rparr>) = forget_speed (s\<lparr>cmdQueue := rest\<rparr>)"
        using "1.prems" by (simp add: forget_speed_eq_iff)
      from "1.IH" [OF False Cons this] show ?thesis unfolding a b .
    qed
  qed
next
  case (2 s0 c)
  let ?s0 = "s0\<lparr>busy := True, currentCmd := Some c, st_t := 0\<rparr>"
  let ?s1 = "s1\<lparr>busy := True, currentCmd := Some c, st_t := 0\<rparr>"
  note ih = 2(1) [OF refl] 2(2) [OF refl] 2(3) [OF refl]
  from "2.prems" have q: "st_q s1 = st_q s0" by (simp add: forget_speed_eq_iff)
  from "2.prems" have st: "forget_speed ?s1 = forget_speed ?s0"
    by (simp add: forget_speed_eq_iff)
  have started: "forget_speed (?s1\<lparr>currentCmd := Some (k\<lparr>duration := d1\<rparr>)\<rparr>) =
      forget_speed (?s0\<lparr>currentCmd := Some (k\<lparr>duration := d0\<rparr>)\<rparr>)" for k d1 d0
    using "2.prems" by (simp add: forget_speed_eq_iff)
  show ?case
  proof (cases "ctype c")
    case HOME
    then show ?thesis
      using started [where k = "c\<lparr>qStart := Some (st_q s0), qTarget := Some (0, 0)\<rparr>"]
      by (subst (1 2) startCommand.simps) (simp add: Let_def q)
  next
    case (SET_JOINTS d0 d1)
    then show ?thesis
      using started [where k = "c\<lparr>qStart := Some (st_q s0),
          qTarget := Some (clamp (deg2rad d0) q1Min q1Max, clamp (deg2rad d1) q2Min q2Max)\<rparr>"]
      by (subst (1 2) startCommand.simps) (simp add: Let_def q)
  next
    case (MOVE_TO x y)
    show ?thesis
    proof (cases "ik x y")
      case (IkOk qsol alt chosen)
      have "forget_speed
          (?s1\<lparr>currentCmd := Some (c\<lparr>qStart := Some (st_q s0), qTarget := Some qsol,
              duration := d1, ik_sol := Some (IkOk qsol alt chosen)\<rparr>)\<rparr>) =
        forget_speed
          (?s0\<lparr>currentCmd := Some (c\<lparr>qStart := Some (st_q s0), qTarget := Some qsol,
              duration := d0, ik_sol := Some (IkOk qsol alt chosen)\<rparr>)\<rparr>)" for d1 d0
        using "2.prems" by (simp add: forget_speed_eq_iff)
      with MOVE_TO IkOk show ?thesis
        by (subst (1 2) startCommand.simps) (simp add: Let_def q)
    next
      case (IkFail reason)
      with MOVE_TO ih(1) [OF MOVE_TO IkFail st] show ?thesis
        by (subst (1 2) startCommand.simps) (simp add: Let_def)
    qed
  next
    case (SLEEP seconds)
    then show ?thesis
      using started [where k = c]
      by (subst (1 2) startCommand.simps) (simp add: Let_def)
  next
    case (LINE_TO x y st)
    have l: "line_subs ?s1 c x y st = line_subs ?s0 c x y st"
      by (simp add: line_subs_def q)
    have "forget_speed (?s1\<lparr>cmdQueue := cmdQueue ?s1 @ line_subs ?s1 c x y st\<rparr>) =
          forget_speed (?s0\<lparr>cmdQueue := cmdQueue ?s0 @ line_subs ?s0 c x y st\<rparr>)"
      unfolding l using "2.prems" by (simp add: forget_speed_eq_iff)
    from ih(2) [OF LINE_TO this] LINE_TO show ?thesis
      by (subst (1 2) startCommand.simps) (simp add: Let_def)
  next
    case (OTHER ty)
    with ih(3) [OF OTHER st] show ?thesis
      by (subst (1 2) startCommand.simps) (simp add: Let_def)
  qed
next
  case (3 s c r)
  have "forget_speed (s1\<lparr>busy := False, currentCmd := None,
            posted := posted s1 @ [CmdDone (cmd_id c) r]\<rparr>) =
        forget_speed (s\<lparr>busy := False, currentCmd := None,
            posted := posted s @ [CmdDone (cmd_id c) r]\<rparr>)"
    using "3.prems" by (simp add: forget_speed_eq_iff)
  from "3.IH" [OF this] show ?case
    by (subst (1 2) finishCommand.simps)
qed


lemma update_motion_speed_blind:
  assumes "forget_speed s1 = forget_speed s"
  shows "map_sum id forget_speed (update_motion s1 c) =
         map_sum id forget_speed (update_motion s c)"
proof (cases "qStart c")
  case None
  then show ?thesis by (simp add: update_motion_def)
next
  case qS: (Some qS)
  show ?thesis
  proof (cases "qTarget c")
    case None
    with qS show ?thesis by (simp add: update_motion_def)
  next
    case qT: (Some qT)
    from assms have t: "st_t s1 = st_t s" and p: "toolPath s1 = toolPath s"
      by (simp_all add: forget_speed_eq_iff)
    show ?thesis
    proof (cases "progress (st_t s) (duration c)")
      case None
      with qS qT t show ?thesis by (simp add: update_motion_def)
    next
      case (Some u)
      let ?q = "(lerp (fst qS) (fst qT) (smoothstep u), lerp (snd qS) (snd qT) (smoothstep u))"
      let ?p = "toolPath s @ [(x2 (fk ?q), y2 (fk ?q))]"
      have e: "forget_speed (s1\<lparr>st_q := ?q, toolPath := ?p\<rparr>) =
               forget_speed (s\<lparr>st_q := ?q, toolPath := ?p\<rparr>)"
        using assms by (simp add: forget_speed_eq_iff)
      then have "forget_speed (finishCommand (s1\<lparr>st_q := ?q, toolPath := ?p\<rparr>) c r) =
                 forget_speed (finishCommand (s\<lparr>st_q := ?q, toolPath := ?p\<rparr>) c r)" for r
        by (rule sched_forget_speed)
      with qS qT Some t p e show ?thesis
        by (simp add: update_motion_def Let_def)
    qed
  qed
qed

lemma update_set_speed:
  "map_sum id forget_speed (update dt (s\<lparr>speedScale := v\<rparr>)) =
   map_sum id forget_speed (update dt s)"
proof (cases "busy s")
  case False
  then show ?thesis by (simp add: update_def forget_speed_set_speed)
next
  case True
  show ?thesis
  proof (cases "currentCmd s")
    case None
    with True show ?thesis by (simp add: update_def forget_speed_set_speed)
  next
    case (Some c)
    let ?s1 = "s\<lparr>speedScale := v, st_t := st_t s + dt\<rparr>"
    let ?s = "s\<lparr>st_t := st_t s + dt\<rparr>"
    have e: "forget_speed ?s1 = forget_speed ?s"
      by (simp add: forget_speed_eq_iff)
    note m = update_motion_speed_blind [OF e, of c]
    have f: "forget_speed (finishCommand ?s1 c Done) = forget_speed (finishCommand ?s c Done)"
      using e by (rule sched_forget_speed)
    from True Some e m f show ?thesis
      by (simp add: update_def Let_def split: cmd_type.split option.split)
  qed
qed

lemma motion_view_forget_speed: "motion_view (forget_speed s) = motion_view s"
  by (simp add: motion_view_def forget_speed_def)

lemma update_set_speed_view:
  "map_sum id motion_view (update dt (s\<lparr>speedScale := v\<rparr>)) =
   map_sum id motion_view (update dt s)"
proof -
  have h: "map_sum id motion_view r = map_sum id motion_view (map_sum id forget_speed r)"
    for r :: "js_error + state"
    by (cases r) (simp_all add: motion_view_forget_speed)
  have "map_sum id motion_view (update dt (s\<lparr>speedScale := v\<rparr>)) =
        map_sum id motion_view (map_sum id forget_speed (update dt (s\<lparr>speedScale := v\<rparr>)))"
    by (rule h)
  also have "\<dots> = map_sum id motion_view (map_sum id forget_speed (update dt s))"
    by (simp only: update_set_speed)
  also have "\<dots> = map_sum id motion_view (update dt s)"
    by (rule h [symmetric])
  finally show ?thesis .
qed

lemma sched_current_timed:
  "current_timed s \<Longrightarrow> current_timed (tryStartNext s)"
  "current_timed (startCommand s0 c)"
  "current_timed (finishCommand s c r)"
proof (induction s and s0 c and s c r rule: tryStartNext_startCommand_finishCommand.induct)
  case (1 s)
  then show ?case
    by (subst tryStartNext.simps) (simp split: list.split)
next
  case (2 s0 c)
  let ?s = "s0\<lparr>busy := True, currentCmd := Some c, st_t := 0\<rparr>"
  note ih = 2(1) [OF refl] 2(2) [OF refl] 2(3) [OF refl]
  have started: "current_timed
      (?s\<lparr>currentCmd := Some (k\<lparr>qStart := Some qS, qTarget := Some qT,
           duration := Some (computeDuration ?s qS qT), ik_sol := i\<rparr>)\<rparr>)" for k qS qT i
    unfolding current_timed_def by (simp add: computeDuration_def)
  show ?case
  proof (cases "ctype c")
    case HOME
    with started [where k = c and i = "ik_sol c"] show ?thesis
      by (subst startCommand.simps) (simp add: Let_def)
  next
    case (SET_JOINTS d0 d1)
    with started [where k = c and i = "ik_sol c"] show ?thesis
      by (subst startCommand.simps) (simp add: Let_def)
  next
    case (MOVE_TO x y)
    show ?thesis
    proof (cases "ik x y")
      case (IkOk qsol alt chosen)
      with MOVE_TO started [where k = c and i = "Some (IkOk qsol alt chosen)"] show ?thesis
        by (subst startCommand.simps) (simp add: Let_def)
    next
      case (IkFail reason)
      with MOVE_TO ih(1) [OF MOVE_TO IkFail] show ?thesis
        by (subst startCommand.simps) (simp add: Let_def)
    qed
  next
    case (SLEEP seconds)
    then show ?thesis
      by (subst startCommand.simps) (simp add: Let_def current_timed_def is_motion_def)
  next
    case (LINE_TO x y st)
    with ih(2) [OF LINE_TO] show ?thesis
      by (subst startCommand.simps) (simp add: Let_def)
  next
    case (OTHER ty)
    with ih(3) [OF OTHER] show ?thesis
      by (subst startCommand.simps) (simp add: Let_def)
  qed
next
  case (3 s c r)
  then show ?case
    by (subst finishCommand.simps) (simp add: current_timed_def)
qed

lemma finishCommand_posts: "posted (finishCommand s c r) \<noteq> posted s"
proof
  assume "posted (finishCommand s c r) = posted s"
  with sched_posted(3) [of s c r] have "prefix (posted s @ [CmdDone (cmd_id c) r]) (posted s)"
    by simp
  then show False by (auto simp: prefix_def)
qed

lemma update_posted:
  assumes "update dt s = Inr s'"
  shows "prefix (posted s) (posted s')"
  using assms
proof (cases rule: update_shapes)
  case (slept c)
  with sched_posted(3) [of "s\<lparr>st_t := st_t s + dt\<rparr>" c Done] show ?thesis
    by (auto dest: append_prefixD)
next
  case (arrived a b c r)
  with sched_posted(3) [of "s\<lparr>st_t := st_t s + dt, st_q := a, toolPath := b\<rparr>" c r]
  show ?thesis by (auto dest: append_prefixD)
qed simp_all

lemma ticks_posted:
  "ticks dts s = Inr s' \<Longrightarrow> prefix (posted s) (posted s')"
proof (induction dts arbitrary: s)
  case Nil
  then show ?case by simp
next
  case (Cons dt dts)
  then obtain s1 where u: "update dt s = Inr s1" and t: "ticks dts s1 = Inr s'"
    by (auto split: sum.splits)
  from update_posted [OF u] Cons.IH [OF t] show ?case by (rule prefix_order.trans)
qed

lemma update_quiet_speed:
  assumes "update dt s = Inr s'" and "posted s' = posted s"
  shows "update dt (s\<lparr>speedScale := w\<rparr>) = Inr (s'\<lparr>speedScale := w\<rparr>)"
proof (cases "busy s")
  case False
  with assms show ?thesis by (simp add: update_def)
next
  case True
  show ?thesis
  proof (cases "currentCmd s")
    case None
    with True assms show ?thesis by (simp add: update_def)
  next
    case (Some c)
    let ?s = "s\<lparr>st_t := st_t s + dt\<rparr>"
    have nofin: False if "s' = finishCommand s1 k r" "posted s1 = posted s" for s1 k r
      using finishCommand_posts [of s1 k r] that assms(2) by auto
    have m: ?thesis if um: "update_motion ?s c = Inr s'"
      and step: "update dt (s\<lparr>speedScale := w\<rparr>) =
                 update_motion (s\<lparr>speedScale := w, st_t := st_t s + dt\<rparr>) c"
    proof -
      from um obtain qS qT u where
        *: "qStart c = Some qS" "qTarget c = Some qT"
           "progress (st_t s + dt) (duration c) = Some u"
        by (auto simp: update_motion_def split: option.splits)
      let ?q = "(lerp (fst qS) (fst qT) (smoothstep u), lerp (snd qS) (snd qT) (smoothstep u))"
      let ?p = "toolPath s @ [(x2 (fk ?q), y2 (fk ?q))]"
      have "\<not> 1 \<le> u"
      proof
        assume "1 \<le> u"
        with um * have "s' = finishCommand (?s\<lparr>st_q := ?q, toolPath := ?p\<rparr>) c
            (DoneIk (ik_chosen c))"
          by (simp add: update_motion_def Let_def)
        then show False by (rule nofin) simp
      qed
      with um * have s': "s' = ?s\<lparr>st_q := ?q, toolPath := ?p\<rparr>"
        by (simp add: update_motion_def Let_def)
      from \<open>\<not> 1 \<le> u\<close> * show ?thesis
        unfolding step s' by (simp add: update_motion_def Let_def)
    qed
    show ?thesis
    proof (cases "ctype c")
      case HOME
      with True Some assms show ?thesis by (intro m) (simp_all add: update_def Let_def)
    next
      case (SET_JOINTS d0 d1)
      with True Some assms show ?thesis by (intro m) (simp_all add: update_def Let_def)
    next
      case (MOVE_TO x y)
      with True Some assms show ?thesis by (intro m) (simp_all add: update_def Let_def)
    next
      case (SLEEP seconds)
      show ?thesis
      proof (cases "duration c")
        case None
        with True \<open>currentCmd s = Some c\<close> SLEEP assms show ?thesis
          by (auto simp: update_def Let_def)
      next
        case (Some d)
        have "\<not> d \<le> st_t s + dt"
        proof
          assume "d \<le> st_t s + dt"
          with True \<open>currentCmd s = Some c\<close> SLEEP Some assms(1)
          have "s' = finishCommand ?s c Done" by (simp add: update_def Let_def)
          then show False by (rule nofin) simp
        qed
        with True \<open>currentCmd s = Some c\<close> SLEEP Some assms(1) show ?thesis
          by (auto simp: update_def Let_def)
      qed
    next
      case (LINE_TO x y st)
      with True Some assms show ?thesis by (auto simp: update_def Let_def)
    next
      case (OTHER ty)
      with True Some assms show ?thesis by (auto simp: update_def Let_def)
    qed
  qed
qed

lemma ticks_quiet_speed:
  "ticks dts s = Inr s' \<Longrightarrow> posted s' = posted s \<Longrightarrow>
   ticks dts (s\<lparr>speedScale := w\<rparr>) = Inr (s'\<lparr>speedScale := w\<rparr>)"
proof (induction dts arbitrary: s)
  case Nil
  then show ?case by auto
next
  case (Cons dt dts)
  then obtain s1 where u: "update dt s = Inr s1" and t: "ticks dts s1 = Inr s'"
    by (auto split: sum.splits)
  have a: "prefix (posted s) (posted s1)" using u by (rule update_posted)
  have "prefix (posted s1) (posted s')" using t by (rule ticks_posted)
  then have b: "prefix (posted s1) (posted s)" by (simp only: Cons.prems(2))
  from b a have q1: "posted s1 = posted s" by (rule prefix_order.antisym)
  then have q2: "posted s' = posted s1" by (simp only: Cons.prems(2))
  have "ticks (dt # dts) (s\<lparr>speedScale := w\<rparr>) = ticks dts (s1\<lparr>speedScale := w\<rparr>)"
    by (simp add: update_quiet_speed [OF u q1])
  also have "\<dots> = Inr (s'\<lparr>speedScale := w\<rparr>)" using t q2 by (rule Cons.IH)
  finally show ?case .
qed

text \<open>
  Claim C2, amended. After \<open>set_speed(v)\<close> the speed scale is \<open>clamp(v, 0, 1)\<close>. The
  executing command is left as it is, stored duration included. As long as no completion
  is posted, every frame commutes with the call: running the frames and then setting the
  speed gives the same state as setting the speed first; and the frame after them moves
  the arm, extends the toolpath and posts completions exactly as it would have without the
  call. \<open>computeDuration\<close> uses the new scale from then on, and so every command started
  afterwards carries a duration computed with it.
\<close>

theorem set_speed_effect:
  "speedScale (set_speed v s) = clamp v 0 1
   \<and> currentCmd (set_speed v s) = currentCmd s
   \<and> (update dt s = Inr s' \<and> posted s' = posted s \<longrightarrow>
        update dt (set_speed v s) = Inr (set_speed v s'))
   \<and> (ticks dts s = Inr s' \<and> posted s' = posted s \<longrightarrow>
        ticks dts (set_speed v s) = Inr (set_speed v s')
        \<and> map_sum id motion_view (update dt (set_speed v s')) =
            map_sum id motion_view (update dt s'))
   \<and> map_sum id motion_view (update dt (set_speed v s)) =
       map_sum id motion_view (update dt s)
   \<and> computeDuration (set_speed v s) qS qT =
       max 0.08 (max \<bar>fst qT - fst qS\<bar> \<bar>snd qT - snd qS\<bar>
                  / (maxSpeed * clamp (clamp v 0 1) 0.05 1))
   \<and> current_timed (startCommand (set_speed v s) c)"
  by (simp add: set_speed_def update_set_speed_view sched_current_timed
      computeDuration_def Let_def ticks_quiet_speed update_quiet_speed)

text \<open>
  Claim C2, as stated, fails for the command in flight. The quarter turn started at scale
  \<open>0.7\<close> keeps its duration of \<open>15 / 14\<close> seconds after \<open>set_speed(0.35)\<close>, although the
  new scale gives \<open>15 / 7\<close> seconds for the same move; two seconds later the command has
  completed at its target.
\<close>

theorem set_speed_in_flight_counterexample:
  "map_option duration (currentCmd (set_speed 0.35 turning)) = Some (Some (15 / 14))
   \<and> computeDuration (set_speed 0.35 turning) (0, 0) (pi / 2, 0) = 15 / 7
   \<and> map_sum id motion_view (update 2 (set_speed 0.35 turning)) =
       Inr ((pi / 2, 0), [(0, 280)], [CmdDone (NumId 1) (DoneIk None)])"
proof -
  have c: "clamp 0.35 0 1 = 0.35" by (simp add: clamp_def)
  have a: "map_option duration (currentCmd (set_speed 0.35 turning)) = Some (Some (15 / 14))"
    by (simp add: set_speed_def turning_eval)
  have "computeDuration (set_speed 0.35 turning) (0, 0) (pi / 2, 0) = 3 / (4 * 0.35)"
    by (rule computeDuration_quarter) (simp_all add: set_speed_def clamp_def)
  then have b: "computeDuration (set_speed 0.35 turning) (0, 0) (pi / 2, 0) = 15 / 7"
    by simp
  have "map_sum id motion_view (update 2 (set_speed 0.35 turning)) =
        map_sum id motion_view (update 2 turning)"
    unfolding set_speed_def by (rule update_set_speed_view)
  then have d: "map_sum id motion_view (update 2 (set_speed 0.35 turning)) =
       Inr ((pi / 2, 0), [(0, 280)], [CmdDone (NumId 1) (DoneIk None)])"
    by (simp add: turning_arrives motion_view_def)
  from a b d show ?thesis by simp
qed

lemma turning_two_frames: "ticks [0.05, 0.05] turning = Inr turning_on"
  by (simp add: turning_eval turning_on_def update_def update_motion_def progress_def
      clamp_def Let_def smoothstep_def lerp_def fk_def L1_def L2_def)

theorem set_speed_effect_witness:
  "ticks [0.05, 0.05] turning = Inr turning_on
   \<and> posted turning_on = posted turning
   \<and> ticks [0.05, 0.05] (set_speed 0.35 turning) = Inr (set_speed 0.35 turning_on)
   \<and> map_option duration (currentCmd (set_speed 0.35 turning_on)) = Some (Some (15 / 14))
   \<and> speedScale (set_speed 0.35 init_state) = 0.35
   \<and> current_timed
       (startCommand (set_speed 0.35 init_state) (new_cmd (NumId 1) (SET_JOINTS 90 0)))
   \<and> map_option duration
       (currentCmd
          (startCommand (set_speed 0.35 init_state) (new_cmd (NumId 1) (SET_JOINTS 90 0)))) =
       Some (Some (15 / 7))"
proof -
  have gen: "map_option duration
       (currentCmd
          (startCommand (set_speed v init_state) (new_cmd (NumId 1) (SET_JOINTS 90 0)))) =
       Some (Some (3 / (4 * v)))" if v: "0.05 \<le> v" "v \<le> 1" for v
  proof -
    let ?s = "set_speed v init_state"
    have sp: "speedScale (?s\<lparr>busy := True, currentCmd := k, st_t := 0\<rparr>) = v" for k
      using v by (simp add: set_speed_def clamp_def)
    have d: "computeDuration (?s\<lparr>busy := True, currentCmd := k, st_t := 0\<rparr>)
          (0, 0) (pi / 2, 0) = 3 / (4 * v)" for k
      by (rule computeDuration_quarter [OF sp v])
    have q: "st_q ?s = (0, 0)" by (simp add: set_speed_def init_state_def deg2rad_def)
    show ?thesis
      by (subst startCommand.simps)
        (simp add: new_cmd_def Let_def q d clamp_q1_quarter clamp_q2_zero deg2rad_def)
  qed
  have c: "clamp 0.35 0 1 = 0.35" by (simp add: clamp_def)
  have p: "posted turning_on = posted turning"
    by (simp add: turning_on_def turning_eval)
  have du: "map_option duration (currentCmd (set_speed 0.35 turning_on)) =
      Some (Some (15 / 14))"
    by (simp add: set_speed_def turning_on_def)
  have fr: "ticks [0.05, 0.05] (set_speed 0.35 turning) = Inr (set_speed 0.35 turning_on)"
    using set_speed_effect [where v = "0.35" and s = turning and s' = turning_on
        and dts = "[0.05, 0.05]"] turning_two_frames p
    by blast
  from gen [of "0.35"] show ?thesis
    using set_speed_effect [where v = "0.35" and s = init_state
        and c = "new_cmd (NumId 1) (SET_JOINTS 90 0)"] c turning_two_frames p du fr
    by simp
qed

end
